theory Spec2Isabelle
  imports Complex_Main "HOL-Library.Multiset" "HOL-Library.Log_Nat"
begin

section \<open>The row store\<close>

text \<open>
  The service in \<^verbatim>\<open>src/services/sheets.js\<close> keeps three sheets, \<^verbatim>\<open>users\<close>,
  \<^verbatim>\<open>expenses\<close> and \<^verbatim>\<open>expense_consumers\<close>, and reads every one of them in full
  with \<^verbatim>\<open>getRows()\<close> on each call. A sheet is modelled as the list of its rows in
  append order, a row as a record of its columns.

  Modelling conventions.
  \<^item> Id cells are modelled as \<^typ>\<open>int\<close>: the value \<^verbatim>\<open>parseInt\<close> reads from the cell.
    The cells are taken to hold decimal integer numerals in canonical form, which is what
    the service itself writes (\<^verbatim>\<open>newId\<close>, \<^verbatim>\<open>startConsumerId + i\<close>); on such cells the
    loose comparison \<^verbatim>\<open>==\<close> of two raw cells in \<^verbatim>\<open>getExpenses\<close> and the comparison of
    their \<^verbatim>\<open>parseInt\<close> values in \<^verbatim>\<open>calculateBalance\<close> agree. Cells that parse to
    \<^verbatim>\<open>NaN\<close> are outside the model.
  \<^item> A JavaScript number is a binary64 double. Every integer of magnitude up to
    \<open>2\<^sup>5\<^sup>3\<close> is a double, and \<^verbatim>\<open>parseInt\<close> reads such a cell exactly; the statements
    about ids below that depend on this carry the bound as a hypothesis. The arithmetic
    the service does on ids (\<open>max + 1\<close>, \<open>start + i\<close>) is modelled as double arithmetic:
    the exact result rounded to the nearest double (\<open>js_plus\<close>).
  \<^item> Amounts are modelled as exact rationals (\<^typ>\<open>rat\<close>): the binary floating point
    error of the JavaScript numbers is outside the model, and every statement about
    amounts below is a statement about exact arithmetic.
  \<^item> The store itself never fails in the model: network and authentication errors of the
    spreadsheet client are not represented.
\<close>

record user_row =
  u_id :: int
  u_name :: string
  u_email :: string
  u_password :: string
  u_created_at :: string

record expense_row =
  e_id :: int
  e_product_name :: string
  e_quantity :: int
  e_paid_by :: int
  e_amount :: rat
  e_expense_date :: string
  e_note :: string
  e_created_at :: string

record consumer_row =
  c_id :: int
  c_expense_id :: int
  c_user_id :: int
  c_created_at :: string

record sheets =
  users :: "user_row list"
  expenses :: "expense_row list"
  expense_consumers :: "consumer_row list"

section \<open>JavaScript values used by the service\<close>

text \<open>
  \<^verbatim>\<open>const balances = {}\<close> is a plain object keyed by user id. An object keeps its own
  properties in creation order; assigning to an existing key replaces the value and
  keeps the key's place. The model is an association list in creation order.
\<close>

type_synonym 'v js_object = "(int \<times> 'v) list"

definition obj_get :: "'v js_object \<Rightarrow> int \<Rightarrow> 'v option" where
  "obj_get b k = map_of b k"

fun obj_set :: "'v js_object \<Rightarrow> int \<Rightarrow> 'v \<Rightarrow> 'v js_object" where
  "obj_set [] k v = [(k, v)]"
| "obj_set ((k', v') # b) k v =
     (if k' = k then (k', v) # b else (k', v') # obj_set b k v)"

text \<open>
  \<^verbatim>\<open>Object.keys\<close> and \<^verbatim>\<open>Object.values\<close> enumerate the keys that are array indices
  (the integers from \<open>0\<close> to \<open>2\<^sup>3\<^sup>2 - 2\<close>) first, in ascending numeric order, and then
  every other key in creation order.
\<close>

definition is_array_index :: "int \<Rightarrow> bool" where
  "is_array_index k = (0 \<le> k \<and> k < 2 ^ 32 - 1)"

definition Object_entries :: "'v js_object \<Rightarrow> (int \<times> 'v) list" where
  "Object_entries b =
     sort_key fst (filter (\<lambda>p. is_array_index (fst p)) b)
       @ filter (\<lambda>p. \<not> is_array_index (fst p)) b"

definition Object_keys :: "'v js_object \<Rightarrow> int list" where
  "Object_keys b = map fst (Object_entries b)"

definition Object_values :: "'v js_object \<Rightarrow> 'v list" where
  "Object_values b = map snd (Object_entries b)"

text \<open>
  The double nearest to an integer: an integer of magnitude up to \<open>2\<^sup>5\<^sup>3\<close> is a double;
  a larger one is rounded to 53 significant bits, a tie going to the neighbour with the
  even significand. (Beyond \<open>2\<^sup>1\<^sup>0\<^sup>2\<^sup>4\<close> the result is an infinity, which is outside the
  model.) The sum \<^verbatim>\<open>a + b\<close> of two integer-valued doubles is the double nearest to the
  exact sum.
\<close>

definition to_double :: "int \<Rightarrow> int" where
  "to_double n =
     (if \<bar>n\<bar> \<le> 2 ^ 53 then n
      else
        (let e = nat (bitlen \<bar>n\<bar> - 53);
             q = \<bar>n\<bar> div 2 ^ e;
             r = \<bar>n\<bar> mod 2 ^ e;
             half = 2 ^ (e - 1);
             q' = (if half < r \<or> (r = half \<and> odd q) then q + 1 else q)
         in sgn n * (q' * 2 ^ e)))"

definition js_plus :: "int \<Rightarrow> int \<Rightarrow> int" where
  "js_plus a b = to_double (a + b)"

text \<open>
  \<^verbatim>\<open>Number.isSafeInteger\<close>: the integers of magnitude below \<open>2\<^sup>5\<^sup>3\<close>.
\<close>

definition safe_integer :: "int \<Rightarrow> bool" where
  "safe_integer k = (\<bar>k\<bar> < 2 ^ 53)"

text \<open>
  \<^verbatim>\<open>Math.round\<close> rounds to the nearest integer, a tie going towards \<open>+\<infinity>\<close>.
\<close>

definition Math_round :: "rat \<Rightarrow> int" where
  "Math_round x = \<lfloor>x + 1 / 2\<rfloor>"

text \<open>
  A division written in the source is a division of JavaScript numbers, which does not
  fail on a zero divisor but yields an infinity or \<^verbatim>\<open>NaN\<close>.
\<close>

datatype js_number = Finite rat | PosInfinity | NegInfinity | NaN

definition js_divide :: "rat \<Rightarrow> nat \<Rightarrow> js_number" where
  "js_divide a n =
     (if n = 0 then (if 0 < a then PosInfinity else if a < 0 then NegInfinity else NaN)
      else Finite (a / of_nat n))"

text \<open>
  Reading a property of \<^verbatim>\<open>undefined\<close> throws a \<^verbatim>\<open>TypeError\<close>.
\<close>

datatype error = TypeError

section \<open>calculateBalance\<close>

record balance_entry =
  b_id :: int
  b_name :: string
  paid :: rat
  owe :: rat
  balance :: rat

text \<open>First loop: one fresh entry per users row, stored under the row's id.\<close>

definition init_entry :: "user_row \<Rightarrow> balance_entry" where
  "init_entry u = \<lparr>b_id = u_id u, b_name = u_name u, paid = 0, owe = 0, balance = 0\<rparr>"

definition init_balances :: "user_row list \<Rightarrow> balance_entry js_object" where
  "init_balances us = foldl (\<lambda>b u. obj_set b (u_id u) (init_entry u)) [] us"

text \<open>Second loop: the amount of every expense goes to its payer, when the payer has an entry.\<close>

definition add_paid :: "balance_entry js_object \<Rightarrow> expense_row \<Rightarrow> balance_entry js_object" where
  "add_paid b e =
     (case obj_get b (e_paid_by e) of
        Some v \<Rightarrow> obj_set b (e_paid_by e) (v\<lparr>paid := paid v + e_amount e\<rparr>)
      | None \<Rightarrow> b)"

definition paid_pass :: "balance_entry js_object \<Rightarrow> expense_row list \<Rightarrow> balance_entry js_object" where
  "paid_pass b es = foldl add_paid b es"

text \<open>
  Third loop: every expense with at least one consumer row is split evenly over its
  consumer rows; a consumer row without an entry is passed over.
\<close>

definition consumers_of :: "consumer_row list \<Rightarrow> expense_row \<Rightarrow> consumer_row list" where
  "consumers_of cs e = filter (\<lambda>c. c_expense_id c = e_id e) cs"

definition add_owe :: "rat \<Rightarrow> balance_entry js_object \<Rightarrow> consumer_row \<Rightarrow> balance_entry js_object" where
  "add_owe amountPerPerson b c =
     (case obj_get b (c_user_id c) of
        Some v \<Rightarrow> obj_set b (c_user_id c) (v\<lparr>owe := owe v + amountPerPerson\<rparr>)
      | None \<Rightarrow> b)"

definition owe_expense ::
  "consumer_row list \<Rightarrow> balance_entry js_object \<Rightarrow> expense_row \<Rightarrow> balance_entry js_object" where
  "owe_expense cs b e =
     (let expenseConsumers = consumers_of cs e in
      if length expenseConsumers > 0
      then foldl (add_owe (e_amount e / of_nat (length expenseConsumers))) b expenseConsumers
      else b)"

definition owe_pass ::
  "consumer_row list \<Rightarrow> balance_entry js_object \<Rightarrow> expense_row list \<Rightarrow> balance_entry js_object" where
  "owe_pass cs b es = foldl (owe_expense cs) b es"

text \<open>
  Fourth loop, over \<^verbatim>\<open>Object.keys(balances)\<close>: the balance is computed from the
  totals as accumulated, and then the two totals are rounded. The property read
  \<^verbatim>\<open>balances[userId]\<close> is not guarded here, so a missing entry is a \<^verbatim>\<open>TypeError\<close>.
\<close>

definition round_entry :: "balance_entry \<Rightarrow> balance_entry" where
  "round_entry v =
     (let v1 = v\<lparr>balance := of_int (Math_round ((paid v - owe v) * 100)) / 100\<rparr>;
          v2 = v1\<lparr>paid := of_int (Math_round (paid v1 * 100)) / 100\<rparr>
      in v2\<lparr>owe := of_int (Math_round (owe v2 * 100)) / 100\<rparr>)"

fun round_pass :: "balance_entry js_object \<Rightarrow> int list \<Rightarrow> error + balance_entry js_object" where
  "round_pass b [] = Inr b"
| "round_pass b (userId # ks) =
     (case obj_get b userId of
        None \<Rightarrow> Inl TypeError
      | Some v \<Rightarrow> round_pass (obj_set b userId (round_entry v)) ks)"

definition accumulate :: "sheets \<Rightarrow> balance_entry js_object" where
  "accumulate s =
     owe_pass (expense_consumers s) (paid_pass (init_balances (users s)) (expenses s)) (expenses s)"

definition calculateBalance :: "sheets \<Rightarrow> error + balance_entry list" where
  "calculateBalance s =
     (let balances = accumulate s in
      case round_pass balances (Object_keys balances) of
        Inl err \<Rightarrow> Inl err
      | Inr balances' \<Rightarrow> Inr (Object_values balances'))"

section \<open>getExpenses\<close>

record user_ref =
  r_id :: int
  r_name :: string

record expense_view =
  v_id :: int
  v_product_name :: string
  v_quantity :: int
  v_amount :: rat
  v_expense_date :: string
  v_note :: string
  v_paid_by :: user_ref
  v_consumers :: "user_ref list"
  v_amount_per_person :: js_number
  v_created_at :: string

text \<open>
  \<^verbatim>\<open>Array.prototype.map\<close> with a callback that may throw: the first exception ends the
  whole call.
\<close>

fun map_throwing :: "('a \<Rightarrow> error + 'b) \<Rightarrow> 'a list \<Rightarrow> error + 'b list" where
  "map_throwing f [] = Inr []"
| "map_throwing f (x # xs) =
     (case f x of
        Inl err \<Rightarrow> Inl err
      | Inr y \<Rightarrow> (case map_throwing f xs of Inl err \<Rightarrow> Inl err | Inr ys \<Rightarrow> Inr (y # ys)))"

text \<open>
  \<^verbatim>\<open>users.find(...)\<close> gives the first matching row or \<^verbatim>\<open>undefined\<close>
  (\<^const>\<open>None\<close>); \<^verbatim>\<open>user.get('id')\<close> on \<^verbatim>\<open>undefined\<close> throws.
\<close>

definition consumer_ref :: "user_row list \<Rightarrow> consumer_row \<Rightarrow> error + user_ref" where
  "consumer_ref us c =
     (case find (\<lambda>u. u_id u = c_user_id c) us of
        None \<Rightarrow> Inl TypeError
      | Some user \<Rightarrow> Inr \<lparr>r_id = u_id user, r_name = u_name user\<rparr>)"

definition expense_view_of ::
  "user_row list \<Rightarrow> consumer_row list \<Rightarrow> expense_row \<Rightarrow> error + expense_view" where
  "expense_view_of us cs expense =
     (let paidBy = find (\<lambda>u. u_id u = e_paid_by expense) us in
      case map_throwing (consumer_ref us) (consumers_of cs expense) of
        Inl err \<Rightarrow> Inl err
      | Inr expenseConsumers \<Rightarrow>
          (case paidBy of
             None \<Rightarrow> Inl TypeError
           | Some p \<Rightarrow>
               Inr \<lparr>v_id = e_id expense,
                    v_product_name = e_product_name expense,
                    v_quantity = e_quantity expense,
                    v_amount = e_amount expense,
                    v_expense_date = e_expense_date expense,
                    v_note = e_note expense,
                    v_paid_by = \<lparr>r_id = u_id p, r_name = u_name p\<rparr>,
                    v_consumers = expenseConsumers,
                    v_amount_per_person = js_divide (e_amount expense) (length expenseConsumers),
                    v_created_at = e_created_at expense\<rparr>))"

definition getExpenses :: "sheets \<Rightarrow> error + expense_view list" where
  "getExpenses s = map_throwing (expense_view_of (users s) (expense_consumers s)) (expenses s)"

section \<open>createUser and createExpense\<close>

text \<open>
  \<^verbatim>\<open>rows.length > 0 ? Math.max(...rows.map(r => parseInt(r.get('id')))) + 1 : 1\<close>,
  on the ids of the rows just fetched.
\<close>

definition next_id :: "int list \<Rightarrow> int" where
  "next_id ids = (if length ids > 0 then js_plus (Max (set ids)) 1 else 1)"

record user_data =
  d_name :: string
  d_email :: string
  d_password :: string

record user_view =
  uv_id :: int
  uv_name :: string
  uv_email :: string
  uv_created_at :: string

text \<open>
  The time stamp \<^verbatim>\<open>new Date().toISOString()...\<close> is the parameter \<open>now\<close>. A creation
  returns its result together with the sheets after the append.
\<close>

definition createUser :: "string \<Rightarrow> user_data \<Rightarrow> sheets \<Rightarrow> user_view \<times> sheets" where
  "createUser now userData s =
     (let rows = users s;
          newId = next_id (map u_id rows);
          newRow = \<lparr>u_id = newId, u_name = d_name userData, u_email = d_email userData,
                    u_password = d_password userData, u_created_at = now\<rparr>
      in (\<lparr>uv_id = newId, uv_name = d_name userData, uv_email = d_email userData,
           uv_created_at = u_created_at newRow\<rparr>,
          s\<lparr>users := rows @ [newRow]\<rparr>))"

record expense_data =
  x_product_name :: string
  x_quantity :: int
  x_paid_by :: int
  x_amount :: rat
  x_expense_date :: string
  x_note :: string
  x_consumers :: "int list"

record created_expense =
  ce_id :: int
  ce_data :: expense_data
  ce_created_at :: string

text \<open>
  The loop \<^verbatim>\<open>for (let i = 0; i < expenseData.consumers.length; i++)\<close> appends one
  consumer row per index.
\<close>

definition add_consumer_row ::
  "string \<Rightarrow> int \<Rightarrow> int \<Rightarrow> int list \<Rightarrow> consumer_row list \<Rightarrow> nat \<Rightarrow> consumer_row list" where
  "add_consumer_row now newExpenseId startConsumerId consumers sheet i =
     sheet @ [\<lparr>c_id = js_plus startConsumerId (int i), c_expense_id = newExpenseId,
               c_user_id = consumers ! i, c_created_at = now\<rparr>]"

definition createExpense :: "string \<Rightarrow> expense_data \<Rightarrow> sheets \<Rightarrow> created_expense \<times> sheets" where
  "createExpense now expenseData s =
     (let expenseRows = expenses s;
          newExpenseId = next_id (map e_id expenseRows);
          s1 = s\<lparr>expenses := expenseRows @
                 [\<lparr>e_id = newExpenseId,
                   e_product_name = x_product_name expenseData,
                   e_quantity = x_quantity expenseData,
                   e_paid_by = x_paid_by expenseData,
                   e_amount = x_amount expenseData,
                   e_expense_date = x_expense_date expenseData,
                   e_note = (if x_note expenseData \<noteq> [] then x_note expenseData else []),
                   e_created_at = now\<rparr>]\<rparr>;
          consumerRows = expense_consumers s1;
          startConsumerId = next_id (map c_id consumerRows);
          s2 = s1\<lparr>expense_consumers :=
                 foldl (add_consumer_row now newExpenseId startConsumerId (x_consumers expenseData))
                   consumerRows [0 ..< length (x_consumers expenseData)]\<rparr>
      in (\<lparr>ce_id = newExpenseId, ce_data = expenseData, ce_created_at = now\<rparr>, s2))"

section \<open>POST /expenses\<close>

text \<open>
  The body of the request, after \<^verbatim>\<open>express.json()\<close>, with the field types of the
  documented interface; \<^const>\<open>None\<close> is a field that is absent (\<^verbatim>\<open>undefined\<close>).
  The handler tests the fields for truthiness: of a string, that it is not empty; of a
  number, that it is not zero; an array is always truthy.
\<close>

record post_body =
  p_product_name :: "string option"
  p_quantity :: "int option"
  p_paid_by :: "int option"
  p_amount :: "rat option"
  p_expense_date :: "string option"
  p_note :: "string option"
  p_consumers :: "int list option"

definition truthy_string :: "string option \<Rightarrow> bool" where
  "truthy_string x = (case x of None \<Rightarrow> False | Some str \<Rightarrow> str \<noteq> [])"

definition truthy_int :: "int option \<Rightarrow> bool" where
  "truthy_int x = (case x of None \<Rightarrow> False | Some n \<Rightarrow> n \<noteq> 0)"

definition truthy_rat :: "rat option \<Rightarrow> bool" where
  "truthy_rat x = (case x of None \<Rightarrow> False | Some n \<Rightarrow> n \<noteq> 0)"

datatype response =
  Status201 string created_expense
| Status400 string

definition post_expenses :: "string \<Rightarrow> post_body \<Rightarrow> sheets \<Rightarrow> response \<times> sheets" where
  "post_expenses now body s =
     (if \<not> truthy_string (p_product_name body) \<or> \<not> truthy_int (p_paid_by body)
          \<or> \<not> truthy_rat (p_amount body) \<or> \<not> truthy_string (p_expense_date body)
          \<or> (case p_consumers body of None \<Rightarrow> True | Some cs \<Rightarrow> length cs = 0)
      then (Status400 ''Missing required fields'', s)
      else
        (let (expense, s') =
               createExpense now
                 \<lparr>x_product_name = the (p_product_name body),
                  x_quantity = (if truthy_int (p_quantity body) then the (p_quantity body) else 1),
                  x_paid_by = the (p_paid_by body),
                  x_amount = the (p_amount body),
                  x_expense_date = the (p_expense_date body),
                  x_note = (if truthy_string (p_note body) then the (p_note body) else []),
                  x_consumers = the (p_consumers body)\<rparr> s
         in (Status201 ''Expense created successfully'' expense, s')))"

section \<open>Totals in the words of the specification\<close>

text \<open>
  The specification describes the totals of a user without reference to the loops:
  \<open>paid\<close> is the sum of the amounts of the expenses the user paid, and \<open>owe\<close> is the
  sum, over every expense, of one even share of its amount for each of its consumer
  rows that names the user.
\<close>

definition paid_of :: "expense_row list \<Rightarrow> int \<Rightarrow> rat" where
  "paid_of es k = sum_list (map e_amount (filter (\<lambda>e. e_paid_by e = k) es))"

definition share_of :: "consumer_row list \<Rightarrow> expense_row \<Rightarrow> int \<Rightarrow> rat" where
  "share_of cs e k =
     sum_list (map (\<lambda>c. e_amount e / of_nat (length (consumers_of cs e)))
                   (filter (\<lambda>c. c_user_id c = k) (consumers_of cs e)))"

definition owe_of :: "consumer_row list \<Rightarrow> expense_row list \<Rightarrow> int \<Rightarrow> rat" where
  "owe_of cs es k = sum_list (map (\<lambda>e. share_of cs e k) es)"

text \<open>
  Rounding to two decimals, as the last loop does it, and what it means for a value \<open>r\<close>
  to be the two-decimal rounding of \<open>x\<close>: \<open>r\<close> is a whole number of hundredths, at most
  half a hundredth away from \<open>x\<close>, the upper neighbour when \<open>x\<close> lies half-way.
\<close>

definition round2 :: "rat \<Rightarrow> rat" where
  "round2 x = of_int (Math_round (x * 100)) / 100"

definition rounded_2dp :: "rat \<Rightarrow> rat \<Rightarrow> bool" where
  "rounded_2dp x r = (of_int \<lfloor>r * 100\<rfloor> = r * 100 \<and> x - 1 / 200 < r \<and> r \<le> x + 1 / 200)"

text \<open>The entry the specification expects for the user \<open>k\<close> named \<open>nm\<close>.\<close>

definition total_entry :: "sheets \<Rightarrow> int \<Rightarrow> string \<Rightarrow> balance_entry" where
  "total_entry s k nm =
     \<lparr>b_id = k, b_name = nm,
      paid = round2 (paid_of (expenses s) k),
      owe = round2 (owe_of (expense_consumers s) (expenses s) k),
      balance = round2 (paid_of (expenses s) k - owe_of (expense_consumers s) (expenses s) k)\<rparr>"

text \<open>The sum of the owe totals of all entries of a balances object.\<close>

definition owe_total :: "balance_entry js_object \<Rightarrow> rat" where
  "owe_total b = sum_list (map (\<lambda>p. owe (snd p)) b)"

text \<open>
  The bodies \<^verbatim>\<open>POST /expenses\<close> turns down: a required field is absent or falsy, or the
  consumer list is absent or empty.
\<close>

definition rejected :: "post_body \<Rightarrow> bool" where
  "rejected body =
     (p_product_name body = None \<or> p_product_name body = Some [] \<or>
      p_paid_by body = None \<or> p_paid_by body = Some 0 \<or>
      p_amount body = None \<or> p_amount body = Some 0 \<or>
      p_expense_date body = None \<or> p_expense_date body = Some [] \<or>
      p_consumers body = None \<or> p_consumers body = Some [])"

section \<open>Example states\<close>

text \<open>Rows with the columns that matter, the others left empty.\<close>

definition mk_user :: "int \<Rightarrow> string \<Rightarrow> user_row" where
  "mk_user i nm = \<lparr>u_id = i, u_name = nm, u_email = [], u_password = [], u_created_at = []\<rparr>"

definition mk_expense :: "int \<Rightarrow> int \<Rightarrow> rat \<Rightarrow> expense_row" where
  "mk_expense i payer a =
     \<lparr>e_id = i, e_product_name = ''Milk'', e_quantity = 1, e_paid_by = payer, e_amount = a,
      e_expense_date = ''2024-01-01'', e_note = [], e_created_at = []\<rparr>"

definition mk_consumer :: "int \<Rightarrow> int \<Rightarrow> int \<Rightarrow> consumer_row" where
  "mk_consumer i e u = \<lparr>c_id = i, c_expense_id = e, c_user_id = u, c_created_at = []\<rparr>"

text \<open>
  The scenario of the specification: users A and B, one expense of \<open>30\<close> paid by A and
  consumed by both. \<open>three_users\<close> adds a third user, first in row order, who takes part
  in nothing.
\<close>

definition scenario :: sheets where
  "scenario =
     \<lparr>users = [mk_user 1 ''A'', mk_user 2 ''B''],
      expenses = [mk_expense 1 1 30],
      expense_consumers = [mk_consumer 1 1 1, mk_consumer 2 1 2]\<rparr>"

definition three_users :: sheets where
  "three_users =
     \<lparr>users = [mk_user 3 ''C'', mk_user 1 ''A'', mk_user 2 ''B''],
      expenses = [mk_expense 1 1 30],
      expense_consumers = [mk_consumer 1 1 1, mk_consumer 2 1 2]\<rparr>"

text \<open>
  A state with dangling references: the first expense has a consumer row for the unknown
  user \<open>2\<close>, the second expense is paid by the unknown user \<open>7\<close>.
\<close>

definition dangling :: sheets where
  "dangling =
     \<lparr>users = [mk_user 1 ''A''],
      expenses = [mk_expense 1 1 30, mk_expense 2 7 10],
      expense_consumers = [mk_consumer 1 1 1, mk_consumer 2 1 2, mk_consumer 3 2 1]\<rparr>"

text \<open>An expense without consumer rows, and two users whose ids are not array indices.\<close>

definition no_consumers :: sheets where
  "no_consumers =
     \<lparr>users = [mk_user 1 ''A''], expenses = [mk_expense 1 1 30], expense_consumers = []\<rparr>"

definition large_ids :: sheets where
  "large_ids =
     \<lparr>users = [mk_user 4294967296 ''A'', mk_user 4294967295 ''B''],
      expenses = [], expense_consumers = []\<rparr>"


text \<open>
  Sheets whose greatest id is \<open>2\<^sup>5\<^sup>3 = 9007199254740992\<close>, and the data of a creation.
\<close>

definition top_id_sheets :: sheets where
  "top_id_sheets =
     \<lparr>users = [mk_user 9007199254740992 ''A''],
      expenses = [mk_expense 9007199254740992 9007199254740992 30],
      expense_consumers = [mk_consumer 9007199254740992 9007199254740992 9007199254740992]\<rparr>"

definition new_user :: user_data where
  "new_user = \<lparr>d_name = ''C'', d_email = ''c@example.org'', d_password = ''pw''\<rparr>"

definition new_expense :: expense_data where
  "new_expense =
     \<lparr>x_product_name = ''Milk'', x_quantity = 1, x_paid_by = 1, x_amount = 10,
      x_expense_date = ''2024-01-01'', x_note = [], x_consumers = [1, 2]\<rparr>"

text \<open>
  Request bodies: the creation of the round trip in the specification; and a body with
  every field present whose amount is \<open>0\<close>.
\<close>

definition empty_sheets :: sheets where
  "empty_sheets = \<lparr>users = [], expenses = [], expense_consumers = []\<rparr>"

definition milk_body :: post_body where
  "milk_body =
     \<lparr>p_product_name = Some ''Milk'', p_quantity = None, p_paid_by = Some 1, p_amount = Some 10,
      p_expense_date = Some ''2024-01-01'', p_note = None, p_consumers = Some [1, 2]\<rparr>"

definition zero_amount_body :: post_body where
  "zero_amount_body =
     \<lparr>p_product_name = Some ''Gift'', p_quantity = Some 1, p_paid_by = Some 1, p_amount = Some 0,
      p_expense_date = Some ''2024-01-01'', p_note = Some [], p_consumers = Some [1, 2]\<rparr>"

section \<open>Properties of the object model\<close>
lemma obj_get_obj_set:
  "obj_get (obj_set b k v) k' = (if k' = k then Some v else obj_get b k')"
  by (induction b) (auto simp: obj_get_def)

lemma keys_obj_set:
  "map fst (obj_set b k v) = (if k \<in> fst ` set b then map fst b else map fst b @ [k])"
  by (induction b) force+

lemma obj_get_None_iff: "obj_get b k = None \<longleftrightarrow> k \<notin> fst ` set b"
  by (simp add: obj_get_def map_of_eq_None_iff)

lemma keys_obj_set_present:
  "obj_get b k = Some v' \<Longrightarrow> map fst (obj_set b k v) = map fst b"
  using obj_get_None_iff [of b k] by (simp add: keys_obj_set)

lemma obj_set_as_map:
  "distinct (map fst b) \<Longrightarrow> k \<in> fst ` set b \<Longrightarrow>
   obj_set b k v = map (\<lambda>p. if fst p = k then (fst p, v) else p) b"
proof (induction b)
  case Nil
  then show ?case by simp
next
  case (Cons p b)
  show ?case
  proof (cases "fst p = k")
    case True
    then have "k \<notin> fst ` set b" using Cons.prems by auto
    then have "map (\<lambda>p. if fst p = k then (fst p, v) else p) b = b"
      by (intro map_idI) force
    with True show ?thesis by (cases p) simp
  next
    case False
    then have "k \<in> fst ` set b" using Cons.prems by auto
    with False Cons show ?thesis by (cases p) simp
  qed
qed

lemma obj_get_Some_iff:
  "distinct (map fst b) \<Longrightarrow> obj_get b k = Some v \<longleftrightarrow> (k, v) \<in> set b"
  by (simp add: obj_get_def)

subsection \<open>The first loop\<close>

lemma keys_init_aux:
  "distinct (map fst b) \<Longrightarrow>
   distinct (map fst (foldl (\<lambda>b u. obj_set b (u_id u) (init_entry u)) b us)) \<and>
   fst ` set (foldl (\<lambda>b u. obj_set b (u_id u) (init_entry u)) b us) = fst ` set b \<union> u_id ` set us"
proof (induction us arbitrary: b)
  case Nil
  then show ?case by simp
next
  case (Cons u us)
  have d: "distinct (map fst (obj_set b (u_id u) (init_entry u)))"
    using Cons.prems by (auto simp: keys_obj_set)
  have s: "fst ` set (obj_set b (u_id u) (init_entry u)) = insert (u_id u) (fst ` set b)"
    using keys_obj_set [of b "u_id u" "init_entry u"]
    by (metis (no_types, lifting) insert_absorb list.set_map set_append list.simps(15) Un_insert_right sup_bot.right_neutral empty_set)
  show ?case using Cons.IH [OF d] s by auto
qed

lemma distinct_keys_init: "distinct (map fst (init_balances us))"
  using keys_init_aux [of "[]" us] by (simp add: init_balances_def)

lemma keys_init: "fst ` set (init_balances us) = u_id ` set us"
  using keys_init_aux [of "[]" us] by (simp add: init_balances_def)

lemma keys_init_distinct_aux:
  "distinct (map fst b @ map u_id us) \<Longrightarrow>
   map fst (foldl (\<lambda>b u. obj_set b (u_id u) (init_entry u)) b us) = map fst b @ map u_id us"
proof (induction us arbitrary: b)
  case Nil
  then show ?case by simp
next
  case (Cons u us)
  have k: "map fst (obj_set b (u_id u) (init_entry u)) = map fst b @ [u_id u]"
    using Cons.prems by (auto simp: keys_obj_set)
  show ?case using Cons.IH [of "obj_set b (u_id u) (init_entry u)"] Cons.prems k by simp
qed

lemma keys_init_distinct:
  "distinct (map u_id us) \<Longrightarrow> map fst (init_balances us) = map u_id us"
  using keys_init_distinct_aux [of "[]" us] by (simp add: init_balances_def)

lemma find_append_case:
  "find P (xs @ ys) = (case find P xs of None \<Rightarrow> find P ys | Some x \<Rightarrow> Some x)"
  by (induction xs) auto

lemma values_init_aux:
  "obj_get (foldl (\<lambda>b u. obj_set b (u_id u) (init_entry u)) b us) k =
     (case find (\<lambda>u. u_id u = k) (rev us) of Some u \<Rightarrow> Some (init_entry u) | None \<Rightarrow> obj_get b k)"
proof (induction us arbitrary: b)
  case Nil
  then show ?case by simp
next
  case (Cons u us)
  show ?case
    by (simp add: Cons.IH find_append_case obj_get_obj_set split: option.splits)
qed

lemma values_init:
  "obj_get (init_balances us) k = map_option init_entry (find (\<lambda>u. u_id u = k) (rev us))"
  using values_init_aux [of "[]" us k]
  by (simp add: init_balances_def obj_get_def split: option.splits)


lemma init_balances_distinct_aux:
  "distinct (map fst b @ map u_id us) \<Longrightarrow>
   foldl (\<lambda>b u. obj_set b (u_id u) (init_entry u)) b us = b @ map (\<lambda>u. (u_id u, init_entry u)) us"
proof (induction us arbitrary: b)
  case Nil
  then show ?case by simp
next
  case (Cons u us)
  have n: "u_id u \<notin> fst ` set b" using Cons.prems by auto
  have k: "obj_set b (u_id u) (init_entry u) = b @ [(u_id u, init_entry u)]"
    using n by (induction b) auto
  show ?case using Cons.IH [of "b @ [(u_id u, init_entry u)]"] Cons.prems k by simp
qed

lemma init_balances_distinct:
  "distinct (map u_id us) \<Longrightarrow> init_balances us = map (\<lambda>u. (u_id u, init_entry u)) us"
  using init_balances_distinct_aux [of "[]" us] by (simp add: init_balances_def)

subsection \<open>The second loop\<close>

lemma keys_add_paid: "map fst (add_paid b e) = map fst b"
  by (auto simp: add_paid_def keys_obj_set_present split: option.splits)

lemma keys_paid_pass: "map fst (paid_pass b es) = map fst b"
  unfolding paid_pass_def by (induction es arbitrary: b) (simp_all add: keys_add_paid)

lemma obj_get_add_paid:
  "obj_get (add_paid b e) k =
     map_option (\<lambda>v. v\<lparr>paid := paid v + (if e_paid_by e = k then e_amount e else 0)\<rparr>) (obj_get b k)"
  by (cases "obj_get b k") (auto simp: add_paid_def obj_get_obj_set split: option.splits)

lemma obj_get_paid_pass:
  "obj_get (paid_pass b es) k = map_option (\<lambda>v. v\<lparr>paid := paid v + paid_of es k\<rparr>) (obj_get b k)"
  unfolding paid_pass_def
proof (induction es arbitrary: b)
  case Nil
  then show ?case by (cases "obj_get b k") (simp_all add: paid_of_def)
next
  case (Cons e es)
  show ?case
    by (cases "obj_get b k")
       (simp_all add: Cons.IH obj_get_add_paid paid_of_def add.assoc)
qed

subsection \<open>The third loop\<close>

lemma keys_add_owe: "map fst (add_owe a b c) = map fst b"
  by (auto simp: add_owe_def keys_obj_set_present split: option.splits)

lemma keys_foldl_add_owe: "map fst (foldl (add_owe a) b cs) = map fst b"
  by (induction cs arbitrary: b) (simp_all add: keys_add_owe)

lemma keys_owe_expense: "map fst (owe_expense cs b e) = map fst b"
  by (simp add: owe_expense_def Let_def keys_foldl_add_owe)

lemma keys_owe_pass: "map fst (owe_pass cs b es) = map fst b"
  unfolding owe_pass_def by (induction es arbitrary: b) (simp_all add: keys_owe_expense)

lemma obj_get_add_owe:
  "obj_get (add_owe a b c) k =
     map_option (\<lambda>v. v\<lparr>owe := owe v + (if c_user_id c = k then a else 0)\<rparr>) (obj_get b k)"
  by (cases "obj_get b k") (auto simp: add_owe_def obj_get_obj_set split: option.splits)

lemma obj_get_foldl_add_owe:
  "obj_get (foldl (add_owe a) b cs) k =
     map_option (\<lambda>v. v\<lparr>owe := owe v + sum_list (map (\<lambda>c. a) (filter (\<lambda>c. c_user_id c = k) cs))\<rparr>)
       (obj_get b k)"
proof (induction cs arbitrary: b)
  case Nil
  then show ?case by (cases "obj_get b k") simp_all
next
  case (Cons c cs)
  show ?case
    by (cases "obj_get b k") (simp_all add: Cons.IH obj_get_add_owe add.assoc)
qed

lemma obj_get_owe_expense:
  "obj_get (owe_expense cs b e) k = map_option (\<lambda>v. v\<lparr>owe := owe v + share_of cs e k\<rparr>) (obj_get b k)"
proof (cases "consumers_of cs e = []")
  case True
  then show ?thesis
    by (cases "obj_get b k") (simp_all add: owe_expense_def share_of_def)
next
  case False
  then show ?thesis
    by (simp add: owe_expense_def Let_def obj_get_foldl_add_owe share_of_def)
qed

lemma obj_get_owe_pass:
  "obj_get (owe_pass cs b es) k = map_option (\<lambda>v. v\<lparr>owe := owe v + owe_of cs es k\<rparr>) (obj_get b k)"
  unfolding owe_pass_def
proof (induction es arbitrary: b)
  case Nil
  then show ?case by (cases "obj_get b k") (simp_all add: owe_of_def)
next
  case (Cons e es)
  show ?case
    by (cases "obj_get b k")
       (simp_all add: Cons.IH obj_get_owe_expense owe_of_def add.assoc)
qed

lemma keys_accumulate: "map fst (accumulate s) = map fst (init_balances (users s))"
  by (simp add: accumulate_def keys_owe_pass keys_paid_pass)

lemma distinct_keys_accumulate: "distinct (map fst (accumulate s))"
  by (simp add: keys_accumulate distinct_keys_init)

lemma obj_get_accumulate:
  "obj_get (accumulate s) k =
     map_option (\<lambda>u. \<lparr>b_id = u_id u, b_name = u_name u, paid = paid_of (expenses s) k,
                       owe = owe_of (expense_consumers s) (expenses s) k, balance = 0\<rparr>)
       (find (\<lambda>u. u_id u = k) (rev (users s)))"
  by (cases "find (\<lambda>u. u_id u = k) (rev (users s))")
     (simp_all add: accumulate_def obj_get_owe_pass obj_get_paid_pass values_init init_entry_def)


subsection \<open>The fourth loop and the enumeration of the object\<close>

lemma round_pass_map:
  "distinct (map fst b) \<Longrightarrow> distinct ks \<Longrightarrow> set ks \<subseteq> fst ` set b \<Longrightarrow>
   round_pass b ks =
     Inr (map (\<lambda>p. if fst p \<in> set ks then (fst p, round_entry (snd p)) else p) b)"
proof (induction ks arbitrary: b)
  case Nil
  then show ?case by simp
next
  case (Cons k ks)
  from Cons.prems obtain v where v: "(k, v) \<in> set b" by auto
  then have g: "obj_get b k = Some v"
    using Cons.prems(1) by (simp add: obj_get_Some_iff)
  let ?b1 = "obj_set b k (round_entry v)"
  have b1: "?b1 = map (\<lambda>p. if fst p = k then (fst p, round_entry v) else p) b"
    using Cons.prems by (intro obj_set_as_map) auto
  have k1: "map fst ?b1 = map fst b"
    using g by (rule keys_obj_set_present)
  have d1: "distinct (map fst ?b1)" and s1: "set ks \<subseteq> fst ` set ?b1"
    using Cons.prems k1 by (auto simp flip: set_map)
  have uniq: "snd p = v" if "p \<in> set b" "fst p = k" for p
    using that v Cons.prems(1) by (metis eq_key_imp_eq_value prod.collapse)
  have "round_pass b (k # ks) = round_pass ?b1 ks"
    using g by simp
  also have "\<dots> = Inr (map (\<lambda>p. if fst p \<in> set ks then (fst p, round_entry (snd p)) else p) ?b1)"
    using Cons.IH [OF d1 _ s1] Cons.prems(2) by simp
  also have "map (\<lambda>p. if fst p \<in> set ks then (fst p, round_entry (snd p)) else p) ?b1 =
             map (\<lambda>p. if fst p \<in> set (k # ks) then (fst p, round_entry (snd p)) else p) b"
    unfolding b1 using Cons.prems(2) by (auto simp: uniq)
  finally show ?case .
qed

lemma set_Object_entries: "set (Object_entries b) = set b"
  by (auto simp: Object_entries_def)

lemma mset_Object_entries: "mset (Object_entries b) = mset b"
  by (simp add: Object_entries_def)

lemma distinct_Object_keys: "distinct (map fst b) \<Longrightarrow> distinct (Object_keys b)"
  unfolding Object_keys_def
  by (metis mset_Object_entries mset_map mset_eq_imp_distinct_iff)

lemma set_Object_keys: "set (Object_keys b) = fst ` set b"
  by (simp add: Object_keys_def set_Object_entries)

lemma round_pass_all:
  "distinct (map fst b) \<Longrightarrow>
   round_pass b (Object_keys b) = Inr (map (\<lambda>p. (fst p, round_entry (snd p))) b)"
  by (simp add: round_pass_map distinct_Object_keys set_Object_keys cong: map_cong)

lemma insort_key_map_fst:
  "(\<And>p. fst (g p) = fst p) \<Longrightarrow>
   insort_key fst (g x) (map g xs) = map g (insort_key fst x xs)"
  by (induction xs) simp_all

lemma sort_key_map_fst:
  "(\<And>p. fst (g p) = fst p) \<Longrightarrow> sort_key fst (map g xs) = map g (sort_key fst xs)"
  by (induction xs) (simp_all add: insort_key_map_fst)

lemma Object_entries_map:
  "(\<And>p. fst (g p) = fst p) \<Longrightarrow> Object_entries (map g b) = map g (Object_entries b)"
  by (simp add: Object_entries_def filter_map comp_def sort_key_map_fst)

lemma calculateBalance_eq:
  "calculateBalance s = Inr (map (\<lambda>p. round_entry (snd p)) (Object_entries (accumulate s)))"
  by (simp add: calculateBalance_def Let_def round_pass_all distinct_keys_accumulate
      Object_values_def Object_entries_map comp_def)

section \<open>Properties of the service\<close>

subsection \<open>The scenario of the specification\<close>

lemma Math_round_numeral [simp]:
  "Math_round (numeral a) = numeral a"
  "Math_round 0 = 0"
  "Math_round (- numeral a) = - numeral a"
  by (simp_all add: Math_round_def floor_eq_iff)

text \<open>
  C1. With the users \<open>1\<close> named A and \<open>2\<close> named B, one expense of amount \<open>30\<close> paid by
  user \<open>1\<close> and the two consumer rows of that expense for the users \<open>1\<close> and \<open>2\<close>,
  \<open>calculateBalance\<close> returns paid 30, owe 15, balance 15 for A and paid 0, owe 15,
  balance -15 for B. The columns the scenario does not fix are arbitrary.
\<close>

theorem C1_scenario:
  "calculateBalance
     \<lparr>users = [\<lparr>u_id = 1, u_name = ''A'', u_email = ea, u_password = pa, u_created_at = ta\<rparr>,
               \<lparr>u_id = 2, u_name = ''B'', u_email = eb, u_password = pb, u_created_at = tb\<rparr>],
      expenses = [\<lparr>e_id = i, e_product_name = pn, e_quantity = q, e_paid_by = 1, e_amount = 30,
                   e_expense_date = d, e_note = n, e_created_at = te\<rparr>],
      expense_consumers = [\<lparr>c_id = j1, c_expense_id = i, c_user_id = 1, c_created_at = t1\<rparr>,
                           \<lparr>c_id = j2, c_expense_id = i, c_user_id = 2, c_created_at = t2\<rparr>]\<rparr>
   = Inr [\<lparr>b_id = 1, b_name = ''A'', paid = 30, owe = 15, balance = 15\<rparr>,
          \<lparr>b_id = 2, b_name = ''B'', paid = 0, owe = 15, balance = - 15\<rparr>]"
  by (simp add: calculateBalance_def accumulate_def owe_pass_def paid_pass_def init_balances_def
      init_entry_def add_paid_def obj_get_def owe_expense_def consumers_of_def add_owe_def
      Object_keys_def Object_values_def Object_entries_def is_array_index_def round_entry_def
      Let_def)

subsection \<open>The entries of the result\<close>

lemma find_Some_holds: "find P xs = Some x \<Longrightarrow> P x \<and> x \<in> set xs"
  by (induction xs) (auto split: if_splits)

lemma accumulate_entry:
  "(k, v) \<in> set (accumulate s) \<longleftrightarrow>
     (\<exists>u. find (\<lambda>u. u_id u = k) (rev (users s)) = Some u \<and>
          v = \<lparr>b_id = k, b_name = u_name u, paid = paid_of (expenses s) k,
               owe = owe_of (expense_consumers s) (expenses s) k, balance = 0\<rparr>)"
proof -
  have "(k, v) \<in> set (accumulate s) \<longleftrightarrow> obj_get (accumulate s) k = Some v"
    by (simp add: obj_get_Some_iff distinct_keys_accumulate)
  also have "\<dots> \<longleftrightarrow> (\<exists>u. find (\<lambda>u. u_id u = k) (rev (users s)) = Some u \<and>
          v = \<lparr>b_id = k, b_name = u_name u, paid = paid_of (expenses s) k,
               owe = owe_of (expense_consumers s) (expenses s) k, balance = 0\<rparr>)"
    by (cases "find (\<lambda>u. u_id u = k) (rev (users s))")
       (auto simp: obj_get_accumulate dest: find_Some_holds)
  finally show ?thesis .
qed

lemma round_entry_total:
  "round_entry \<lparr>b_id = k, b_name = nm, paid = p, owe = o', balance = z\<rparr> =
     \<lparr>b_id = k, b_name = nm, paid = round2 p, owe = round2 o', balance = round2 (p - o')\<rparr>"
  by (simp add: round_entry_def round2_def Let_def algebra_simps)

lemma round_entry_accumulated:
  "round_entry \<lparr>b_id = k, b_name = nm, paid = paid_of (expenses s) k,
                 owe = owe_of (expense_consumers s) (expenses s) k, balance = 0\<rparr>
     = total_entry s k nm"
  by (simp only: round_entry_total total_entry_def)

lemma result_entry:
  assumes "calculateBalance s = Inr r"
  shows "x \<in> set r \<longleftrightarrow>
     (\<exists>k u. find (\<lambda>u. u_id u = k) (rev (users s)) = Some u \<and> x = total_entry s k (u_name u))"
proof
  have "r = map (\<lambda>p. round_entry (snd p)) (Object_entries (accumulate s))"
    using assms unfolding calculateBalance_eq by simp
  then have r: "set r = (\<lambda>p. round_entry (snd p)) ` set (accumulate s)"
    by (simp only: set_map set_Object_entries)
  {
    assume "x \<in> set r"
    then obtain k v where kv: "(k, v) \<in> set (accumulate s)" and x: "x = round_entry v"
      unfolding r by auto
    from kv obtain u where u: "find (\<lambda>u. u_id u = k) (rev (users s)) = Some u"
      and v: "v = \<lparr>b_id = k, b_name = u_name u, paid = paid_of (expenses s) k,
                   owe = owe_of (expense_consumers s) (expenses s) k, balance = 0\<rparr>"
      unfolding accumulate_entry by blast
    have "x = total_entry s k (u_name u)"
      unfolding x v by (rule round_entry_accumulated)
    with u show "\<exists>k u. find (\<lambda>u. u_id u = k) (rev (users s)) = Some u \<and>
        x = total_entry s k (u_name u)"
      by blast
  }
  {
    assume "\<exists>k u. find (\<lambda>u. u_id u = k) (rev (users s)) = Some u \<and>
        x = total_entry s k (u_name u)"
    then obtain k u where u: "find (\<lambda>u. u_id u = k) (rev (users s)) = Some u"
      and x: "x = total_entry s k (u_name u)"
      by blast
    let ?v = "\<lparr>b_id = k, b_name = u_name u, paid = paid_of (expenses s) k,
               owe = owe_of (expense_consumers s) (expenses s) k, balance = 0\<rparr>"
    from u have "(k, ?v) \<in> set (accumulate s)"
      unfolding accumulate_entry by blast
    then have "round_entry (snd (k, ?v)) \<in> set r"
      unfolding r by (rule imageI)
    then show "x \<in> set r"
      unfolding x by (simp only: snd_conv round_entry_accumulated)
  }
qed

lemma round2_rounded: "rounded_2dp x (round2 x)"
proof -
  have "of_int \<lfloor>x * 100 + 1 / 2\<rfloor> \<le> x * 100 + 1 / 2"
    and "x * 100 + 1 / 2 < of_int \<lfloor>x * 100 + 1 / 2\<rfloor> + 1"
    by linarith+
  then show ?thesis
    by (simp add: rounded_2dp_def round2_def Math_round_def)
qed

lemma round2_zero [simp]: "round2 0 = 0"
  by (simp add: round2_def)

lemma find_Some_ex: "x \<in> set xs \<Longrightarrow> P x \<Longrightarrow> \<exists>y. find P xs = Some y"
  by (cases "find P xs") (auto simp: find_None_iff)


text \<open>
  C8. \<open>calculateBalance\<close> succeeds on every state, also when an expense names a payer or
  a consumer row names a user that is not in the users sheet. The entries returned are
  those of the ids of the users sheet, and the paid and owe totals of an entry are made
  up of the expenses paid by that very id and of the consumer rows naming that very id:
  a row that names an unknown user enters no entry.
\<close>

theorem C8_dangling_skipped:
  "\<exists>r. calculateBalance s = Inr r \<and> b_id ` set r = u_id ` set (users s) \<and>
        (\<forall>x\<in>set r. paid x = round2 (paid_of (expenses s) (b_id x)) \<and>
                     owe x = round2 (owe_of (expense_consumers s) (expenses s) (b_id x)))"
proof -
  obtain r where r: "calculateBalance s = Inr r"
    by (simp add: calculateBalance_eq)
  have ids: "b_id ` set r = u_id ` set (users s)"
  proof (intro set_eqI iffI)
    fix k assume "k \<in> b_id ` set r"
    then obtain x where "x \<in> set r" "k = b_id x" by auto
    then obtain w where "find (\<lambda>u. u_id u = k) (rev (users s)) = Some w"
      using result_entry [OF r] by (auto simp: total_entry_def)
    then show "k \<in> u_id ` set (users s)"
      using find_Some_holds by fastforce
  next
    fix k assume "k \<in> u_id ` set (users s)"
    then obtain w where "find (\<lambda>u. u_id u = k) (rev (users s)) = Some w"
      using find_Some_ex [of _ "rev (users s)" "\<lambda>w. u_id w = k"] by auto
    then have "total_entry s k (u_name w) \<in> set r"
      using result_entry [OF r] by blast
    then show "k \<in> b_id ` set r"
      by (force simp: total_entry_def image_iff)
  qed
  have tot: "paid x = round2 (paid_of (expenses s) (b_id x)) \<and>
             owe x = round2 (owe_of (expense_consumers s) (expenses s) (b_id x))"
    if "x \<in> set r" for x
    using result_entry [OF r] that by (auto simp: total_entry_def)
  show ?thesis using r ids tot by blast
qed

theorem C8_dangling_skipped_witness:
  "(\<exists>e\<in>set (expenses dangling). e_paid_by e \<notin> u_id ` set (users dangling)) \<and>
   (\<exists>c\<in>set (expense_consumers dangling). c_user_id c \<notin> u_id ` set (users dangling)) \<and>
   (\<exists>r. calculateBalance dangling = Inr r \<and> b_id ` set r = u_id ` set (users dangling) \<and>
        (\<forall>x\<in>set r. paid x = round2 (paid_of (expenses dangling) (b_id x)) \<and>
                     owe x = round2 (owe_of (expense_consumers dangling) (expenses dangling) (b_id x))))"
proof -
  have h1: "\<exists>e\<in>set (expenses dangling). e_paid_by e \<notin> u_id ` set (users dangling)"
    by (simp add: dangling_def mk_expense_def mk_user_def)
  have h2: "\<exists>c\<in>set (expense_consumers dangling). c_user_id c \<notin> u_id ` set (users dangling)"
    by (simp add: dangling_def mk_consumer_def mk_user_def)
  from h1 h2 C8_dangling_skipped [of dangling] show ?thesis by simp
qed

subsection \<open>The order of the entries\<close>

lemma map_fst_insort_key: "map fst (insort_key fst x xs) = insort (fst x) (map fst xs)"
  by (induction xs) simp_all

lemma map_fst_sort_key: "map fst (sort_key fst xs) = sort (map fst xs)"
  by (induction xs) (simp_all add: map_fst_insort_key)

lemma Object_keys_eq:
  "Object_keys b =
     sort (filter is_array_index (map fst b)) @ filter (\<lambda>k. \<not> is_array_index k) (map fst b)"
  by (simp add: Object_keys_def Object_entries_def map_fst_sort_key filter_map comp_def)

lemma accumulate_b_id: "p \<in> set (accumulate s) \<Longrightarrow> b_id (snd p) = fst p"
  using accumulate_entry [of "fst p" "snd p" s] by auto

lemma b_id_round_entry [simp]: "b_id (round_entry v) = b_id v"
  by (simp add: round_entry_def Let_def)

lemma result_ids:
  "calculateBalance s = Inr r \<Longrightarrow> map b_id r = Object_keys (accumulate s)"
  unfolding calculateBalance_eq Object_keys_def
  by (auto simp: set_Object_entries accumulate_b_id)

lemma paid_of_uninvolved: "k \<notin> e_paid_by ` set es \<Longrightarrow> paid_of es k = 0"
proof -
  assume "k \<notin> e_paid_by ` set es"
  then have "filter (\<lambda>e. e_paid_by e = k) es = []"
    by (auto simp: filter_empty_conv)
  then show ?thesis by (simp add: paid_of_def)
qed

lemma share_of_uninvolved: "k \<notin> c_user_id ` set cs \<Longrightarrow> share_of cs e k = 0"
proof -
  assume "k \<notin> c_user_id ` set cs"
  then have "filter (\<lambda>c. c_user_id c = k) (consumers_of cs e) = []"
    by (auto simp: filter_empty_conv consumers_of_def)
  then show ?thesis by (simp add: share_of_def)
qed

lemma owe_of_uninvolved: "k \<notin> c_user_id ` set cs \<Longrightarrow> owe_of cs es k = 0"
  by (induction es) (simp_all add: owe_of_def share_of_uninvolved)

text \<open>
  C10 (as amended). When the ids of the users sheet are pairwise distinct safe integers
  (of magnitude below \<open>2\<^sup>5\<^sup>3\<close>), \<open>calculateBalance\<close> returns one entry per user, and a user who paid no expense and is
  named by no consumer row has paid, owe and balance \<open>0\<close>. The entries whose ids are
  array indices (\<open>0\<close> to \<open>4294967294\<close>) come first, in ascending order of id, followed by
  the others in the row order of the sheet; when every id is an array index the whole
  result is in ascending order of id.
\<close>

theorem C10_one_entry_per_user:
  assumes "distinct (map u_id (users s))"
    and "\<forall>u\<in>set (users s). safe_integer (u_id u)"
  shows "\<exists>r. calculateBalance s = Inr r \<and>
           mset (map b_id r) = mset (map u_id (users s)) \<and>
           map b_id r =
             sort (filter is_array_index (map u_id (users s)))
               @ filter (\<lambda>k. \<not> is_array_index k) (map u_id (users s)) \<and>
           ((\<forall>u\<in>set (users s). is_array_index (u_id u)) \<longrightarrow>
              map b_id r = sort (map u_id (users s))) \<and>
           (\<forall>x\<in>set r.
              b_id x \<notin> e_paid_by ` set (expenses s) \<and>
              b_id x \<notin> c_user_id ` set (expense_consumers s) \<longrightarrow>
              paid x = 0 \<and> owe x = 0 \<and> balance x = 0)"
proof -
  obtain r where r: "calculateBalance s = Inr r"
    by (simp add: calculateBalance_eq)
  have keys: "map fst (accumulate s) = map u_id (users s)"
    using assms(1) by (simp add: keys_accumulate init_balances_distinct comp_def)
  have order: "map b_id r =
      sort (filter is_array_index (map u_id (users s)))
        @ filter (\<lambda>k. \<not> is_array_index k) (map u_id (users s))"
    using result_ids [OF r] by (simp add: Object_keys_eq keys)
  have perm: "mset (map b_id r) = mset (map u_id (users s))"
    unfolding order by simp
  have asc: "map b_id r = sort (map u_id (users s))"
    if "\<forall>u\<in>set (users s). is_array_index (u_id u)"
  proof -
    have "filter is_array_index (map u_id (users s)) = map u_id (users s)"
      and "filter (\<lambda>k. \<not> is_array_index k) (map u_id (users s)) = []"
      using that by (auto simp: filter_empty_conv)
    then show ?thesis using order by simp
  qed
  have zero: "paid x = 0 \<and> owe x = 0 \<and> balance x = 0"
    if "x \<in> set r" "b_id x \<notin> e_paid_by ` set (expenses s)"
       "b_id x \<notin> c_user_id ` set (expense_consumers s)" for x
  proof -
    from that(1) obtain k nm where "x = total_entry s k nm"
      using result_entry [OF r] by blast
    with that(2,3) show ?thesis
      by (simp add: total_entry_def paid_of_uninvolved owe_of_uninvolved)
  qed
  show ?thesis using r perm order asc zero by blast
qed

theorem C10_one_entry_per_user_witness:
  "distinct (map u_id (users three_users)) \<and>
   (\<exists>u\<in>set (users three_users). is_array_index (u_id u)) \<and>
   (\<exists>r. calculateBalance three_users = Inr r \<and>
           mset (map b_id r) = mset (map u_id (users three_users)) \<and>
           map b_id r =
             sort (filter is_array_index (map u_id (users three_users)))
               @ filter (\<lambda>k. \<not> is_array_index k) (map u_id (users three_users)) \<and>
           ((\<forall>u\<in>set (users three_users). is_array_index (u_id u)) \<longrightarrow>
              map b_id r = sort (map u_id (users three_users))) \<and>
           (\<forall>x\<in>set r.
              b_id x \<notin> e_paid_by ` set (expenses three_users) \<and>
              b_id x \<notin> c_user_id ` set (expense_consumers three_users) \<longrightarrow>
              paid x = 0 \<and> owe x = 0 \<and> balance x = 0))"
proof -
  have h: "distinct (map u_id (users three_users))"
    by (simp add: three_users_def mk_user_def)
  have j: "\<forall>u\<in>set (users three_users). safe_integer (u_id u)"
    by (simp add: three_users_def mk_user_def safe_integer_def)
  have i: "\<exists>u\<in>set (users three_users). is_array_index (u_id u)"
    by (simp add: three_users_def mk_user_def is_array_index_def)
  from h i C10_one_entry_per_user [OF h j] show ?thesis by simp
qed

text \<open>
  C10 as stated fails for ids that are not array indices: with the users
  \<open>4294967296\<close> and \<open>4294967295\<close>, in this row order, the entries come back in row
  order, which is not ascending.
\<close>

theorem C10_counterexample:
  "\<not> (distinct (map u_id (users large_ids)) \<longrightarrow>
       (\<exists>r. calculateBalance large_ids = Inr r \<and> map b_id r = sort (map u_id (users large_ids))))"
  by (simp add: large_ids_def mk_user_def calculateBalance_eq accumulate_def owe_pass_def
      paid_pass_def init_balances_def init_entry_def Object_entries_def is_array_index_def
      round_entry_def Let_def)

subsection \<open>Conservation\<close>

lemma sum_list_delta:
  "distinct ks \<Longrightarrow> sum_list (map (\<lambda>k. if a = k then (x::rat) else 0) ks) = (if a \<in> set ks then x else 0)"
  by (induction ks) auto

lemma sum_paid_of:
  "distinct ks \<Longrightarrow> \<forall>e\<in>set es. e_paid_by e \<in> set ks \<Longrightarrow>
   sum_list (map (paid_of es) ks) = sum_list (map e_amount es)"
proof (induction es)
  case Nil
  then show ?case by (simp add: paid_of_def)
next
  case (Cons e es)
  have "paid_of (e # es) = (\<lambda>k. (if e_paid_by e = k then e_amount e else 0) + paid_of es k)"
    by (auto simp: paid_of_def fun_eq_iff)
  then have "sum_list (map (paid_of (e # es)) ks) =
      sum_list (map (\<lambda>k. if e_paid_by e = k then e_amount e else 0) ks) + sum_list (map (paid_of es) ks)"
    by (simp add: sum_list_addf)
  with Cons show ?case by (simp add: sum_list_delta)
qed

lemma sum_const_filter:
  "distinct ks \<Longrightarrow> \<forall>c\<in>set cl. c_user_id c \<in> set ks \<Longrightarrow>
   sum_list (map (\<lambda>k. sum_list (map (\<lambda>c. a) (filter (\<lambda>c. c_user_id c = k) cl))) ks)
     = of_nat (length cl) * (a::rat)"
proof (induction cl)
  case Nil
  then show ?case by simp
next
  case (Cons c cl)
  have "(\<lambda>k. sum_list (map (\<lambda>c. a) (filter (\<lambda>c. c_user_id c = k) (c # cl)))) =
        (\<lambda>k. (if c_user_id c = k then a else 0)
              + sum_list (map (\<lambda>c. a) (filter (\<lambda>c. c_user_id c = k) cl)))"
    by (auto simp: fun_eq_iff)
  then have "sum_list (map (\<lambda>k. sum_list (map (\<lambda>c. a) (filter (\<lambda>c. c_user_id c = k) (c # cl)))) ks) =
      sum_list (map (\<lambda>k. if c_user_id c = k then a else 0) ks)
      + sum_list (map (\<lambda>k. sum_list (map (\<lambda>c. a) (filter (\<lambda>c. c_user_id c = k) cl))) ks)"
    by (simp add: sum_list_addf)
  with Cons show ?case by (simp add: sum_list_delta algebra_simps)
qed

lemma sum_share_of:
  assumes "distinct ks" "\<forall>c\<in>set (consumers_of cs e). c_user_id c \<in> set ks"
    "consumers_of cs e \<noteq> []"
  shows "sum_list (map (share_of cs e) ks) = e_amount e"
proof -
  have "sum_list (map (share_of cs e) ks) =
      of_nat (length (consumers_of cs e)) * (e_amount e / of_nat (length (consumers_of cs e)))"
    unfolding share_of_def using assms(1,2) by (rule sum_const_filter)
  also have "\<dots> = e_amount e" using assms(3) by simp
  finally show ?thesis .
qed

lemma sum_owe_of:
  "distinct ks \<Longrightarrow> \<forall>c\<in>set cs. c_user_id c \<in> set ks \<Longrightarrow>
   \<forall>e\<in>set es. consumers_of cs e \<noteq> [] \<Longrightarrow>
   sum_list (map (owe_of cs es) ks) = sum_list (map e_amount es)"
proof (induction es)
  case Nil
  then show ?case by (simp add: owe_of_def)
next
  case (Cons e es)
  have "owe_of cs (e # es) = (\<lambda>k. share_of cs e k + owe_of cs es k)"
    by (simp add: owe_of_def fun_eq_iff)
  then have "sum_list (map (owe_of cs (e # es)) ks) =
      sum_list (map (share_of cs e) ks) + sum_list (map (owe_of cs es) ks)"
    by (simp add: sum_list_addf)
  moreover have "sum_list (map (share_of cs e) ks) = e_amount e"
    using Cons.prems by (intro sum_share_of) (auto simp: consumers_of_def)
  ultimately show ?case using Cons by simp
qed

lemma accumulate_totals:
  "p \<in> set (accumulate s) \<Longrightarrow>
   paid (snd p) = paid_of (expenses s) (fst p) \<and>
   owe (snd p) = owe_of (expense_consumers s) (expenses s) (fst p)"
  using accumulate_entry [of "fst p" "snd p" s] by auto

lemma sum_accumulate:
  "sum_list (map (\<lambda>p. paid (snd p) - owe (snd p)) (accumulate s)) =
   sum_list (map (paid_of (expenses s)) (map fst (accumulate s)))
   - sum_list (map (owe_of (expense_consumers s) (expenses s)) (map fst (accumulate s)))"
proof -
  have "map (\<lambda>p. paid (snd p) - owe (snd p)) (accumulate s) =
        map (\<lambda>p. paid_of (expenses s) (fst p) - owe_of (expense_consumers s) (expenses s) (fst p))
          (accumulate s)"
    by (rule map_cong) (simp_all add: accumulate_totals)
  then have "sum_list (map (\<lambda>p. paid (snd p) - owe (snd p)) (accumulate s)) =
        sum_list (map (\<lambda>p. paid_of (expenses s) (fst p)
                            - owe_of (expense_consumers s) (expenses s) (fst p)) (accumulate s))"
    by (rule arg_cong)
  also have "\<dots> = sum_list (map (paid_of (expenses s)) (map fst (accumulate s)))
      - sum_list (map (owe_of (expense_consumers s) (expenses s)) (map fst (accumulate s)))"
    by (simp add: sum_list_subtractf comp_def)
  finally show ?thesis .
qed

lemma round2_error: "\<bar>round2 x - x\<bar> \<le> 1 / 200"
  using round2_rounded [of x] unfolding rounded_2dp_def by linarith

lemma sum_list_round2:
  "\<bar>sum_list (map (\<lambda>x. round2 (f x)) xs) - sum_list (map f xs)\<bar> \<le> of_nat (length xs) / 200"
proof (induction xs)
  case Nil
  then show ?case by simp
next
  case (Cons x xs)
  have a: "\<bar>round2 (f x) - f x\<bar> \<le> 1 / 200" by (rule round2_error)
  have e: "of_nat (length (x # xs)) / 200 = 1 / 200 + (of_nat (length xs) :: rat) / 200"
    by (simp add: add_divide_distrib)
  show ?case
    unfolding e list.map sum_list.Cons using a Cons.IH by linarith
qed

lemma balance_round_entry: "balance (round_entry v) = round2 (paid v - owe v)"
  by (simp add: round_entry_def round2_def Let_def)

lemma sum_list_Object_entries:
  "sum_list (map f (Object_entries b)) = sum_list (map (f::_ \<Rightarrow> rat) b)"
proof -
  have "mset (map f (Object_entries b)) = mset (map f b)"
    by (simp add: mset_Object_entries)
  then show ?thesis by (metis sum_mset_sum_list)
qed

text \<open>
  C4 (as amended). When every payer and every consumer row's user is in the users sheet
  and every expense has at least one consumer row, the balances before rounding sum to
  exactly \<open>0\<close>, and the rounded balances returned by \<open>calculateBalance\<close> sum to at most
  half a hundredth per entry in absolute value.
\<close>

theorem C4_conservation:
  assumes "\<forall>e\<in>set (expenses s). e_paid_by e \<in> u_id ` set (users s)"
    and "\<forall>c\<in>set (expense_consumers s). c_user_id c \<in> u_id ` set (users s)"
    and "\<forall>e\<in>set (expenses s). consumers_of (expense_consumers s) e \<noteq> []"
  shows "sum_list (map (\<lambda>p. paid (snd p) - owe (snd p)) (accumulate s)) = 0 \<and>
         (\<exists>r. calculateBalance s = Inr r \<and>
              \<bar>sum_list (map balance r)\<bar> \<le> of_nat (length r) / 200)"
proof -
  let ?ks = "map fst (accumulate s)"
  have d: "distinct ?ks" by (rule distinct_keys_accumulate)
  have ks: "set ?ks = u_id ` set (users s)"
    by (simp add: keys_accumulate keys_init)
  have p: "sum_list (map (paid_of (expenses s)) ?ks) = sum_list (map e_amount (expenses s))"
    using d assms(1) unfolding ks [symmetric] by (rule sum_paid_of)
  have o: "sum_list (map (owe_of (expense_consumers s) (expenses s)) ?ks)
           = sum_list (map e_amount (expenses s))"
    using d assms(2,3) unfolding ks [symmetric] by (rule sum_owe_of)
  have zero: "sum_list (map (\<lambda>p. paid (snd p) - owe (snd p)) (accumulate s)) = 0"
    using p o by (simp add: sum_accumulate)
  let ?r = "map (\<lambda>p. round_entry (snd p)) (Object_entries (accumulate s))"
  have r: "calculateBalance s = Inr ?r" by (rule calculateBalance_eq)
  have "sum_list (map balance ?r) =
        sum_list (map (\<lambda>p. round2 (paid (snd p) - owe (snd p))) (Object_entries (accumulate s)))"
    by (simp add: comp_def balance_round_entry)
  also have "\<dots> = sum_list (map (\<lambda>p. round2 (paid (snd p) - owe (snd p))) (accumulate s))"
    by (rule sum_list_Object_entries)
  finally have "\<bar>sum_list (map balance ?r)\<bar> \<le> of_nat (length (accumulate s)) / 200"
    using sum_list_round2 [of "\<lambda>p. paid (snd p) - owe (snd p)" "accumulate s"] zero by simp
  moreover have "length ?r = length (accumulate s)"
    using mset_Object_entries [of "accumulate s"] by (metis length_map size_mset)
  ultimately show ?thesis using zero r by simp
qed

text \<open>
  C4 as stated fails for an expense without consumer rows: its amount is credited to the
  payer and owed by nobody.
\<close>

theorem C4_counterexample:
  "\<not> ((\<forall>e\<in>set (expenses no_consumers). e_paid_by e \<in> u_id ` set (users no_consumers)) \<and>
       (\<forall>c\<in>set (expense_consumers no_consumers). c_user_id c \<in> u_id ` set (users no_consumers)) \<longrightarrow>
       (\<exists>r. calculateBalance no_consumers = Inr r \<and>
            \<bar>sum_list (map balance r)\<bar> \<le> of_nat (length r) / 200))"
  by (simp add: no_consumers_def mk_user_def mk_expense_def calculateBalance_eq accumulate_def
      owe_pass_def paid_pass_def init_balances_def init_entry_def add_paid_def obj_get_def
      owe_expense_def consumers_of_def Object_entries_def is_array_index_def round_entry_def
      Let_def)

theorem C4_conservation_witness:
  "(\<exists>e\<in>set (expenses scenario). e_paid_by e \<in> u_id ` set (users scenario)) \<and>
   sum_list (map (\<lambda>p. paid (snd p) - owe (snd p)) (accumulate scenario)) = 0 \<and>
   (\<exists>r. calculateBalance scenario = Inr r \<and>
        \<bar>sum_list (map balance r)\<bar> \<le> of_nat (length r) / 200)"
proof -
  have h1: "\<forall>e\<in>set (expenses scenario). e_paid_by e \<in> u_id ` set (users scenario)"
    by (simp add: scenario_def mk_expense_def mk_user_def)
  have h2: "\<forall>c\<in>set (expense_consumers scenario). c_user_id c \<in> u_id ` set (users scenario)"
    by (simp add: scenario_def mk_consumer_def mk_user_def)
  have h3: "\<forall>e\<in>set (expenses scenario). consumers_of (expense_consumers scenario) e \<noteq> []"
    by (simp add: scenario_def mk_consumer_def mk_expense_def consumers_of_def)
  have h4: "\<exists>e\<in>set (expenses scenario). e_paid_by e \<in> u_id ` set (users scenario)"
    by (simp add: scenario_def mk_expense_def mk_user_def)
  from h4 C4_conservation [OF h1 h2 h3] show ?thesis by (rule conjI)
qed

subsection \<open>The listing of expenses\<close>

lemma map_throwing_Inr:
  "map_throwing f xs = Inr ys \<Longrightarrow> list_all2 (\<lambda>x y. f x = Inr y) xs ys"
  by (induction xs arbitrary: ys) (auto split: sum.splits)

lemma map_throwing_Inl:
  "x \<in> set xs \<Longrightarrow> f x = Inl TypeError \<Longrightarrow> map_throwing f xs = Inl TypeError"
proof (induction xs)
  case Nil
  then show ?case by simp
next
  case (Cons y ys)
  show ?case
  proof (cases "f y")
    case (Inl err)
    then show ?thesis by (cases err) simp
  next
    case (Inr v)
    with Cons have "map_throwing f ys = Inl TypeError" by auto
    with Inr show ?thesis by simp
  qed
qed

lemma map_throwing_total:
  "\<forall>x\<in>set xs. \<exists>y. f x = Inr y \<Longrightarrow> \<exists>ys. map_throwing f xs = Inr ys"
  by (induction xs) auto

lemma consumer_ref_Inr_iff:
  "(\<exists>y. consumer_ref us c = Inr y) \<longleftrightarrow> c_user_id c \<in> u_id ` set us"
proof (cases "find (\<lambda>u. u_id u = c_user_id c) us")
  case None
  then have "c_user_id c \<notin> u_id ` set us"
    by (force simp: find_None_iff)
  moreover have "consumer_ref us c = Inl TypeError"
    using None by (simp add: consumer_ref_def)
  ultimately show ?thesis by simp
next
  case (Some u)
  then show ?thesis using find_Some_holds [OF Some] by (force simp: consumer_ref_def)
qed

lemma consumer_ref_fail:
  "c_user_id c \<notin> u_id ` set us \<Longrightarrow> consumer_ref us c = Inl TypeError"
  using consumer_ref_Inr_iff [of us c] by (cases "consumer_ref us c") (auto, metis error.exhaust)

lemma expense_view_of_Inr:
  assumes "expense_view_of us cs e = Inr v"
  shows "v_amount_per_person v = js_divide (e_amount e) (length (consumers_of cs e))"
proof -
  from assms obtain rs where rs: "map_throwing (consumer_ref us) (consumers_of cs e) = Inr rs"
    and v: "v_amount_per_person v = js_divide (e_amount e) (length rs)"
    by (auto simp: expense_view_of_def Let_def split: sum.splits option.splits)
  from map_throwing_Inr [OF rs] have "length rs = length (consumers_of cs e)"
    by (simp add: list_all2_lengthD)
  with v show ?thesis by simp
qed

lemma expense_view_of_fail:
  assumes "e_paid_by e \<notin> u_id ` set us \<or> (\<exists>c\<in>set (consumers_of cs e). c_user_id c \<notin> u_id ` set us)"
  shows "expense_view_of us cs e = Inl TypeError"
proof (cases "\<exists>c\<in>set (consumers_of cs e). c_user_id c \<notin> u_id ` set us")
  case True
  then obtain c where "c \<in> set (consumers_of cs e)" "consumer_ref us c = Inl TypeError"
    using consumer_ref_fail by blast
  then have "map_throwing (consumer_ref us) (consumers_of cs e) = Inl TypeError"
    by (rule map_throwing_Inl)
  then show ?thesis by (simp add: expense_view_of_def)
next
  case False
  with assms have "find (\<lambda>u. u_id u = e_paid_by e) us = None"
    by (force simp: find_None_iff)
  then show ?thesis
    by (cases "map_throwing (consumer_ref us) (consumers_of cs e)")
       (auto simp: expense_view_of_def, metis error.exhaust)
qed

lemma expense_view_of_total:
  assumes "e_paid_by e \<in> u_id ` set us" "\<forall>c\<in>set (consumers_of cs e). c_user_id c \<in> u_id ` set us"
  shows "\<exists>v. expense_view_of us cs e = Inr v"
proof -
  from assms(2) obtain rs where "map_throwing (consumer_ref us) (consumers_of cs e) = Inr rs"
    using map_throwing_total [of "consumers_of cs e" "consumer_ref us"] consumer_ref_Inr_iff
    by blast
  moreover from assms(1) obtain u where "u \<in> set us" "u_id u = e_paid_by e"
    by auto
  then obtain p where "find (\<lambda>u. u_id u = e_paid_by e) us = Some p"
    using find_Some_ex [of u us "\<lambda>u. u_id u = e_paid_by e"] by auto
  ultimately show ?thesis by (simp add: expense_view_of_def)
qed

text \<open>
  C9. \<open>getExpenses\<close> fails with a \<^verbatim>\<open>TypeError\<close> (a property read on \<^verbatim>\<open>undefined\<close>) on
  every state that holds an expense whose payer, or one of whose consumer rows' users,
  is not in the users sheet; the state \<open>dangling\<close> is one such state.
\<close>

theorem C9_getExpenses_fails:
  assumes "e \<in> set (expenses s)"
    and "e_paid_by e \<notin> u_id ` set (users s) \<or>
         (\<exists>c\<in>set (consumers_of (expense_consumers s) e). c_user_id c \<notin> u_id ` set (users s))"
  shows "getExpenses s = Inl TypeError"
  unfolding getExpenses_def
  using assms(1) expense_view_of_fail [OF assms(2)] by (rule map_throwing_Inl)

theorem C9_getExpenses_fails_witness:
  "mk_expense 2 7 10 \<in> set (expenses dangling) \<and>
   e_paid_by (mk_expense 2 7 10) \<notin> u_id ` set (users dangling) \<and>
   getExpenses dangling = Inl TypeError"
proof -
  have h1: "mk_expense 2 7 10 \<in> set (expenses dangling)"
    by (simp add: dangling_def)
  have h2: "e_paid_by (mk_expense 2 7 10) \<notin> u_id ` set (users dangling)"
    by (simp add: dangling_def mk_expense_def mk_user_def)
  from h1 h2 C9_getExpenses_fails [OF h1 disjI1, OF h2] show ?thesis by simp
qed

subsection \<open>The even split\<close>

lemma owe_total_obj_set:
  "obj_get b k = Some v \<Longrightarrow> owe_total (obj_set b k (v\<lparr>owe := owe v + a\<rparr>)) = owe_total b + a"
  by (induction b) (auto simp: obj_get_def owe_total_def)

lemma owe_total_add_owe:
  "c_user_id c \<in> fst ` set b \<Longrightarrow> owe_total (add_owe a b c) = owe_total b + a"
  using obj_get_None_iff [of b "c_user_id c"]
  by (cases "obj_get b (c_user_id c)") (auto simp: add_owe_def owe_total_obj_set)

lemma owe_total_foldl:
  "\<forall>c\<in>set cl. c_user_id c \<in> fst ` set b \<Longrightarrow>
   owe_total (foldl (add_owe a) b cl) = owe_total b + of_nat (length cl) * a"
proof (induction cl arbitrary: b)
  case Nil
  then show ?case by simp
next
  case (Cons c cl)
  have "fst ` set (add_owe a b c) = fst ` set b"
    using keys_add_owe [of a b c] by (metis list.set_map)
  with Cons show ?case by (simp add: owe_total_add_owe algebra_simps)
qed

lemma owe_total_owe_expense:
  assumes "consumers_of cs e \<noteq> []" "\<forall>c\<in>set (consumers_of cs e). c_user_id c \<in> fst ` set b"
  shows "owe_total (owe_expense cs b e) = owe_total b + e_amount e"
  using assms by (simp add: owe_expense_def Let_def owe_total_foldl)

text \<open>
  C2 (as amended). For the expense in row \<open>i\<close> with a non-empty group of consumer rows:
  whenever \<open>getExpenses\<close> returns, its entry \<open>i\<close> reports the amount divided by the
  number of consumer rows, and \<open>getExpenses\<close> does return when every payer and every
  consumer of every expense is in the users sheet; and in \<open>calculateBalance\<close>, when every
  consumer row of the expense names a user with an entry, the step of the third loop for
  this expense raises the sum of all owe totals by exactly the amount. The quotient is
  computed on reading: no sheet has a column for it.
\<close>

theorem C2_even_split:
  assumes "i < length (expenses s)"
    and "consumers_of (expense_consumers s) (expenses s ! i) \<noteq> []"
  shows "(\<forall>vs. getExpenses s = Inr vs \<longrightarrow>
            length vs = length (expenses s) \<and>
            v_amount_per_person (vs ! i) =
              Finite (e_amount (expenses s ! i)
                      / of_nat (length (consumers_of (expense_consumers s) (expenses s ! i))))) \<and>
         ((\<forall>e\<in>set (expenses s). e_paid_by e \<in> u_id ` set (users s) \<and>
              (\<forall>c\<in>set (consumers_of (expense_consumers s) e). c_user_id c \<in> u_id ` set (users s)))
            \<longrightarrow> (\<exists>vs. getExpenses s = Inr vs)) \<and>
         (\<forall>b. (\<forall>c\<in>set (consumers_of (expense_consumers s) (expenses s ! i)).
                   c_user_id c \<in> fst ` set b) \<longrightarrow>
              owe_total (owe_expense (expense_consumers s) b (expenses s ! i))
                = owe_total b + e_amount (expenses s ! i))"
proof (intro conjI allI impI)
  fix vs assume vs: "getExpenses s = Inr vs"
  then have l: "list_all2 (\<lambda>e v. expense_view_of (users s) (expense_consumers s) e = Inr v)
      (expenses s) vs"
    unfolding getExpenses_def by (rule map_throwing_Inr)
  then show "length vs = length (expenses s)" by (simp add: list_all2_lengthD)
  from l assms(1) have "expense_view_of (users s) (expense_consumers s) (expenses s ! i) = Inr (vs ! i)"
    by (rule list_all2_nthD)
  then show "v_amount_per_person (vs ! i) =
      Finite (e_amount (expenses s ! i)
              / of_nat (length (consumers_of (expense_consumers s) (expenses s ! i))))"
    using assms(2) by (simp add: expense_view_of_Inr js_divide_def)
next
  assume "\<forall>e\<in>set (expenses s). e_paid_by e \<in> u_id ` set (users s) \<and>
              (\<forall>c\<in>set (consumers_of (expense_consumers s) e). c_user_id c \<in> u_id ` set (users s))"
  then show "\<exists>vs. getExpenses s = Inr vs"
    unfolding getExpenses_def by (intro map_throwing_total) (simp add: expense_view_of_total)
next
  fix b :: "balance_entry js_object"
  assume "\<forall>c\<in>set (consumers_of (expense_consumers s) (expenses s ! i)). c_user_id c \<in> fst ` set b"
  with assms(2) show "owe_total (owe_expense (expense_consumers s) b (expenses s ! i))
                = owe_total b + e_amount (expenses s ! i)"
    by (rule owe_total_owe_expense)
qed

text \<open>
  C2 as stated fails when a consumer row names an unknown user: in \<open>dangling\<close> the first
  expense of \<open>30\<close> has two consumer rows, one of them for the unknown user \<open>2\<close>, and only
  \<open>15\<close> is owed.
\<close>

theorem C2_counterexample:
  "\<not> (consumers_of (expense_consumers dangling) (expenses dangling ! 0) \<noteq> [] \<longrightarrow>
       owe_total (owe_expense (expense_consumers dangling) (init_balances (users dangling))
                    (expenses dangling ! 0))
         = owe_total (init_balances (users dangling)) + e_amount (expenses dangling ! 0))"
  by (simp add: dangling_def mk_user_def mk_expense_def mk_consumer_def consumers_of_def
      owe_expense_def add_owe_def obj_get_def init_balances_def init_entry_def owe_total_def
      Let_def)

theorem C2_even_split_witness:
  "0 < length (expenses scenario) \<and>
   consumers_of (expense_consumers scenario) (expenses scenario ! 0) \<noteq> [] \<and>
   (\<exists>vs. getExpenses scenario = Inr vs \<and> v_amount_per_person (vs ! 0) = Finite 15) \<and>
   owe_total (owe_expense (expense_consumers scenario) (init_balances (users scenario))
                (expenses scenario ! 0))
     = owe_total (init_balances (users scenario)) + 30"
proof -
  have h1: "0 < length (expenses scenario)"
    by (simp add: scenario_def)
  have h2: "consumers_of (expense_consumers scenario) (expenses scenario ! 0) \<noteq> []"
    by (simp add: scenario_def consumers_of_def mk_expense_def mk_consumer_def)
  note t = C2_even_split [OF h1 h2]
  have known: "\<forall>e\<in>set (expenses scenario). e_paid_by e \<in> u_id ` set (users scenario) \<and>
      (\<forall>c\<in>set (consumers_of (expense_consumers scenario) e).
          c_user_id c \<in> u_id ` set (users scenario))"
    by (simp add: scenario_def consumers_of_def mk_expense_def mk_consumer_def mk_user_def)
  with t obtain vs where vs: "getExpenses scenario = Inr vs" by blast
  with t have "v_amount_per_person (vs ! 0) =
      Finite (e_amount (expenses scenario ! 0)
              / of_nat (length (consumers_of (expense_consumers scenario) (expenses scenario ! 0))))"
    by blast
  then have per: "v_amount_per_person (vs ! 0) = Finite 15"
    by (simp add: scenario_def consumers_of_def mk_expense_def mk_consumer_def)
  have keys: "\<forall>c\<in>set (consumers_of (expense_consumers scenario) (expenses scenario ! 0)).
      c_user_id c \<in> fst ` set (init_balances (users scenario))"
    by (simp add: keys_init scenario_def consumers_of_def mk_expense_def mk_consumer_def mk_user_def)
  with t have "owe_total (owe_expense (expense_consumers scenario) (init_balances (users scenario))
                (expenses scenario ! 0))
     = owe_total (init_balances (users scenario)) + e_amount (expenses scenario ! 0)"
    by blast
  then have owe: "owe_total (owe_expense (expense_consumers scenario) (init_balances (users scenario))
                (expenses scenario ! 0))
     = owe_total (init_balances (users scenario)) + 30"
    by (simp add: scenario_def mk_expense_def)
  from h1 h2 vs per owe show ?thesis by blast
qed

subsection \<open>Identifiers of new rows\<close>

lemma js_plus_exact: "\<bar>a + b\<bar> \<le> 2 ^ 53 \<Longrightarrow> js_plus a b = a + b"
  by (simp add: js_plus_def to_double_def)

lemma next_id_safe:
  assumes "\<forall>k\<in>set ids. safe_integer k"
  shows "next_id ids = (if ids = [] then 0 else Max (set ids)) + 1"
proof (cases "ids = []")
  case True
  then show ?thesis by (simp add: next_id_def)
next
  case False
  then have "Max (set ids) \<in> set ids" by simp
  with assms have "\<bar>Max (set ids)\<bar> < 2 ^ 53" by (simp add: safe_integer_def)
  then have "\<bar>Max (set ids) + 1\<bar> \<le> 2 ^ 53" by linarith
  then have "js_plus (Max (set ids)) 1 = Max (set ids) + 1" by (rule js_plus_exact)
  with False show ?thesis by (simp add: next_id_def)
qed

lemma next_id_snoc:
  assumes "\<forall>k\<in>set ids. safe_integer k" and "safe_integer (next_id ids)"
  shows "next_id (ids @ [next_id ids]) = next_id ids + 1"
proof -
  let ?n = "next_id ids"
  have n: "?n = (if ids = [] then 0 else Max (set ids)) + 1"
    using assms(1) by (rule next_id_safe)
  have "\<forall>k\<in>set (ids @ [?n]). safe_integer k"
    using assms by simp
  then have "next_id (ids @ [?n]) = Max (set (ids @ [?n])) + 1"
    using next_id_safe [of "ids @ [?n]"] by simp
  moreover have "Max (set (ids @ [?n])) = ?n"
  proof (cases "ids = []")
    case True
    then show ?thesis by simp
  next
    case False
    then have "Max (insert ?n (set ids)) = max ?n (Max (set ids))"
      by (simp add: Max_insert)
    with False n show ?thesis by simp
  qed
  ultimately show ?thesis by simp
qed

text \<open>
  C6 (as amended). When the ids of the sheet are safe integers (of magnitude below
  \<open>2\<^sup>5\<^sup>3\<close>), \<open>createUser\<close> and \<open>createExpense\<close> give the new row the greatest id of the
  sheet as it is at the call, plus one, and \<open>1\<close> when the sheet is empty; the row is
  appended after the existing rows; and when the new id is a safe integer too, a second
  creation right after the first gets the next id.
\<close>

theorem C6_next_id:
  assumes "\<forall>u\<in>set (users s). safe_integer (u_id u)"
    and "\<forall>e\<in>set (expenses s). safe_integer (e_id e)"
  shows "uv_id (fst (createUser now d s))
     = (if users s = [] then 0 else Max (u_id ` set (users s))) + 1 \<and>
   users (snd (createUser now d s))
     = users s @ [\<lparr>u_id = uv_id (fst (createUser now d s)), u_name = d_name d,
                    u_email = d_email d, u_password = d_password d, u_created_at = now\<rparr>] \<and>
   ce_id (fst (createExpense now x s))
     = (if expenses s = [] then 0 else Max (e_id ` set (expenses s))) + 1 \<and>
   butlast (expenses (snd (createExpense now x s))) = expenses s \<and>
   e_id (last (expenses (snd (createExpense now x s)))) = ce_id (fst (createExpense now x s)) \<and>
   (safe_integer (uv_id (fst (createUser now d s))) \<longrightarrow>
      uv_id (fst (createUser now' d' (snd (createUser now d s))))
        = uv_id (fst (createUser now d s)) + 1) \<and>
   (safe_integer (ce_id (fst (createExpense now x s))) \<longrightarrow>
      ce_id (fst (createExpense now' x' (snd (createExpense now x s))))
        = ce_id (fst (createExpense now x s)) + 1)"
proof -
  have su: "\<forall>k\<in>set (map u_id (users s)). safe_integer k"
    using assms(1) by simp
  have se: "\<forall>k\<in>set (map e_id (expenses s)). safe_integer k"
    using assms(2) by simp
  have u: "uv_id (fst (createUser now d s)) = next_id (map u_id (users s))" for now d s
    by (simp add: createUser_def Let_def)
  have us: "users (snd (createUser now d s))
     = users s @ [\<lparr>u_id = next_id (map u_id (users s)), u_name = d_name d,
                    u_email = d_email d, u_password = d_password d, u_created_at = now\<rparr>]"
    by (simp add: createUser_def Let_def)
  have e: "ce_id (fst (createExpense now x s)) = next_id (map e_id (expenses s))" for now x s
    by (simp add: createExpense_def Let_def)
  have es: "\<exists>row. expenses (snd (createExpense now x s)) = expenses s @ [row] \<and>
      e_id row = next_id (map e_id (expenses s))"
    by (simp add: createExpense_def Let_def)
  then obtain row where row: "expenses (snd (createExpense now x s)) = expenses s @ [row]"
    "e_id row = next_id (map e_id (expenses s))" by blast
  have c1: "uv_id (fst (createUser now d s))
      = (if users s = [] then 0 else Max (u_id ` set (users s))) + 1"
    unfolding u using next_id_safe [OF su] by simp
  have c2: "users (snd (createUser now d s))
     = users s @ [\<lparr>u_id = uv_id (fst (createUser now d s)), u_name = d_name d,
                    u_email = d_email d, u_password = d_password d, u_created_at = now\<rparr>]"
    unfolding u by (rule us)
  have c3: "ce_id (fst (createExpense now x s))
      = (if expenses s = [] then 0 else Max (e_id ` set (expenses s))) + 1"
    unfolding e using next_id_safe [OF se] by simp
  have c4: "butlast (expenses (snd (createExpense now x s))) = expenses s"
    unfolding row by simp
  have c5: "e_id (last (expenses (snd (createExpense now x s)))) = ce_id (fst (createExpense now x s))"
    unfolding row e by (simp add: row(2))
  have c6: "uv_id (fst (createUser now' d' (snd (createUser now d s))))
      = uv_id (fst (createUser now d s)) + 1"
    if "safe_integer (uv_id (fst (createUser now d s)))"
  proof -
    from that have "safe_integer (next_id (map u_id (users s)))" unfolding u .
    from next_id_snoc [OF su this] show ?thesis
      unfolding u us by simp
  qed
  have c7: "ce_id (fst (createExpense now' x' (snd (createExpense now x s))))
      = ce_id (fst (createExpense now x s)) + 1"
    if "safe_integer (ce_id (fst (createExpense now x s)))"
  proof -
    from that have "safe_integer (next_id (map e_id (expenses s)))" unfolding e .
    from next_id_snoc [OF se this] show ?thesis
      unfolding e row by (simp add: row(2))
  qed
  from c1 c2 c3 c4 c5 c6 c7 show ?thesis by blast
qed

theorem C6_next_id_witness:
  "uv_id (fst (createUser ''2024-01-01 10:00:00'' new_user scenario)) = 3 \<and>
   ce_id (fst (createExpense ''2024-01-01 10:00:00'' new_expense scenario)) = 2 \<and>
   uv_id (fst (createUser ''2024-01-01 10:00:00'' new_user empty_sheets)) = 1"
proof -
  have h1: "\<forall>u\<in>set (users scenario). safe_integer (u_id u)"
    by (simp add: scenario_def mk_user_def safe_integer_def)
  have h2: "\<forall>e\<in>set (expenses scenario). safe_integer (e_id e)"
    by (simp add: scenario_def mk_expense_def safe_integer_def)
  have h3: "\<forall>u\<in>set (users empty_sheets). safe_integer (u_id u)"
    "\<forall>e\<in>set (expenses empty_sheets). safe_integer (e_id e)"
    by (simp_all add: empty_sheets_def)
  note a = C6_next_id [OF h1 h2, of "''2024-01-01 10:00:00''" new_user new_expense]
  note b = C6_next_id [OF h3, of "''2024-01-01 10:00:00''" new_user new_expense]
  have "uv_id (fst (createUser ''2024-01-01 10:00:00'' new_user scenario)) = 3"
    using a by (simp add: scenario_def mk_user_def)
  moreover have "ce_id (fst (createExpense ''2024-01-01 10:00:00'' new_expense scenario)) = 2"
    using a by (simp add: scenario_def mk_expense_def)
  moreover have "uv_id (fst (createUser ''2024-01-01 10:00:00'' new_user empty_sheets)) = 1"
    using b by (simp add: empty_sheets_def)
  ultimately show ?thesis by blast
qed

text \<open>
  C6 as stated fails from \<open>2\<^sup>5\<^sup>3\<close> on: the sum \<open>2\<^sup>5\<^sup>3 + 1\<close> is not a double and is rounded
  back to \<open>2\<^sup>5\<^sup>3\<close>, so the new user gets the id of the existing one.
\<close>

theorem C6_counterexample:
  "\<not> (uv_id (fst (createUser ''2024-01-01 10:00:00'' new_user top_id_sheets))
        = (if users top_id_sheets = [] then 0
           else Max (u_id ` set (users top_id_sheets))) + 1)"
  by (simp add: createUser_def next_id_def js_plus_def to_double_def compute_bitlen
      top_id_sheets_def mk_user_def Let_def)

lemma foldl_snoc_map: "foldl (\<lambda>rows i. rows @ [g i]) rows is = rows @ map g is"
  by (induction "is" arbitrary: rows) simp_all

lemma map_nth_zip:
  "map (\<lambda>i. g i (xs ! i)) [0 ..< length xs] = map (\<lambda>(i, x). g i x) (zip [0 ..< length xs] xs)"
  by (rule nth_equalityI) simp_all

lemma consumer_rows_appended:
  "expense_consumers (snd (createExpense now x s))
     = expense_consumers s @
       map (\<lambda>i. \<lparr>c_id = js_plus (next_id (map c_id (expense_consumers s))) (int i),
                   c_expense_id = next_id (map e_id (expenses s)),
                   c_user_id = x_consumers x ! i, c_created_at = now\<rparr>)
         [0 ..< length (x_consumers x)]"
proof -
  let ?start = "next_id (map c_id (expense_consumers s))"
  let ?new = "next_id (map e_id (expenses s))"
  have "expense_consumers (snd (createExpense now x s))
      = foldl (add_consumer_row now ?new ?start (x_consumers x)) (expense_consumers s)
          [0 ..< length (x_consumers x)]"
    by (simp add: createExpense_def Let_def)
  also have "add_consumer_row now ?new ?start (x_consumers x) =
      (\<lambda>rows i. rows @ [\<lparr>c_id = js_plus ?start (int i), c_expense_id = ?new,
                           c_user_id = x_consumers x ! i, c_created_at = now\<rparr>])"
    by (simp add: add_consumer_row_def fun_eq_iff)
  also have "foldl \<dots> (expense_consumers s) [0 ..< length (x_consumers x)]
      = expense_consumers s @
        map (\<lambda>i. \<lparr>c_id = js_plus ?start (int i), c_expense_id = ?new,
                    c_user_id = x_consumers x ! i, c_created_at = now\<rparr>)
          [0 ..< length (x_consumers x)]"
    by (rule foldl_snoc_map)
  finally show ?thesis .
qed

text \<open>
  C7 (as amended). When the ids of the consumer sheet are safe integers and the greatest
  of them plus the length of the consumer list does not exceed \<open>2\<^sup>5\<^sup>3\<close>, \<open>createExpense\<close>
  appends one consumer row per element of the consumer list, in list order, with the ids
  \<open>start\<close>, \<open>start + 1\<close>, ... where \<open>start\<close> is the greatest id of the consumer sheet plus
  one (\<open>1\<close> for an empty sheet), each with the id of the new expense.
\<close>

theorem C7_consumer_rows:
  assumes "\<forall>c\<in>set (expense_consumers s). safe_integer (c_id c)"
    and "(if expense_consumers s = [] then 0 else Max (c_id ` set (expense_consumers s)))
           + int (length (x_consumers x)) \<le> 2 ^ 53"
  shows "expense_consumers (snd (createExpense now x s))
     = expense_consumers s @
       map (\<lambda>(i, u). \<lparr>c_id = (if expense_consumers s = [] then 0
                                 else Max (c_id ` set (expense_consumers s))) + 1 + int i,
                        c_expense_id = ce_id (fst (createExpense now x s)),
                        c_user_id = u, c_created_at = now\<rparr>)
           (zip [0 ..< length (x_consumers x)] (x_consumers x)) \<and>
   length (expense_consumers (snd (createExpense now x s)))
     = length (expense_consumers s) + length (x_consumers x) \<and>
   ce_id (fst (createExpense now x s)) = e_id (last (expenses (snd (createExpense now x s))))"
proof -
  let ?m = "if expense_consumers s = [] then 0 else Max (c_id ` set (expense_consumers s))"
  let ?start = "next_id (map c_id (expense_consumers s))"
  let ?new = "next_id (map e_id (expenses s))"
  have "\<forall>k\<in>set (map c_id (expense_consumers s)). safe_integer k"
    using assms(1) by simp
  from next_id_safe [OF this] have start: "?start = ?m + 1" by simp
  have low: "- (2 ^ 53) < ?m"
  proof (cases "expense_consumers s = []")
    case True
    then show ?thesis by simp
  next
    case False
    then have "Max (c_id ` set (expense_consumers s)) \<in> c_id ` set (expense_consumers s)"
      by (intro Max_in) simp_all
    with assms(1) have "\<bar>Max (c_id ` set (expense_consumers s))\<bar> < 2 ^ 53"
      by (auto simp: safe_integer_def)
    with False show ?thesis by simp
  qed
  have exact: "js_plus ?start (int i) = ?m + 1 + int i" if "i < length (x_consumers x)" for i
  proof -
    from that assms(2) low have "\<bar>?m + 1 + int i\<bar> \<le> 2 ^ 53" by linarith
    then show ?thesis unfolding start by (rule js_plus_exact)
  qed
  have "map (\<lambda>i. \<lparr>c_id = js_plus ?start (int i), c_expense_id = ?new,
                    c_user_id = x_consumers x ! i, c_created_at = now\<rparr>)
          [0 ..< length (x_consumers x)]
      = map (\<lambda>i. \<lparr>c_id = ?m + 1 + int i, c_expense_id = ?new,
                    c_user_id = x_consumers x ! i, c_created_at = now\<rparr>)
          [0 ..< length (x_consumers x)]"
    by (rule map_cong) (simp_all add: exact)
  also have "\<dots> = map (\<lambda>(i, u). \<lparr>c_id = ?m + 1 + int i, c_expense_id = ?new,
                    c_user_id = u, c_created_at = now\<rparr>)
          (zip [0 ..< length (x_consumers x)] (x_consumers x))"
    by (rule map_nth_zip [of "\<lambda>i u. \<lparr>c_id = ?m + 1 + int i, c_expense_id = ?new,
                    c_user_id = u, c_created_at = now\<rparr>"])
  finally have rows: "expense_consumers (snd (createExpense now x s))
      = expense_consumers s @
        map (\<lambda>(i, u). \<lparr>c_id = ?m + 1 + int i, c_expense_id = ?new,
                    c_user_id = u, c_created_at = now\<rparr>)
          (zip [0 ..< length (x_consumers x)] (x_consumers x))"
    unfolding consumer_rows_appended by simp
  have new: "ce_id (fst (createExpense now x s)) = ?new"
    by (simp add: createExpense_def Let_def)
  have last: "e_id (last (expenses (snd (createExpense now x s)))) = ?new"
    by (simp add: createExpense_def Let_def)
  show ?thesis
    unfolding rows new last by simp
qed

theorem C7_consumer_rows_witness:
  "expense_consumers (snd (createExpense ''2024-01-01 10:00:00'' new_expense scenario))
     = expense_consumers scenario @
       [\<lparr>c_id = 3, c_expense_id = 2, c_user_id = 1, c_created_at = ''2024-01-01 10:00:00''\<rparr>,
        \<lparr>c_id = 4, c_expense_id = 2, c_user_id = 2, c_created_at = ''2024-01-01 10:00:00''\<rparr>]"
proof -
  have h1: "\<forall>c\<in>set (expense_consumers scenario). safe_integer (c_id c)"
    by (simp add: scenario_def mk_consumer_def safe_integer_def)
  have h2: "(if expense_consumers scenario = [] then 0
             else Max (c_id ` set (expense_consumers scenario)))
           + int (length (x_consumers new_expense)) \<le> 2 ^ 53"
    by (simp add: scenario_def mk_consumer_def new_expense_def)
  have id: "ce_id (fst (createExpense ''2024-01-01 10:00:00'' new_expense scenario)) = 2"
    by (simp add: createExpense_def Let_def next_id_def js_plus_def to_double_def scenario_def
        mk_expense_def)
  have z: "zip [0 ..< length (x_consumers new_expense)] (x_consumers new_expense)
      = [(0, 1), (1, 2)]"
    by (simp add: new_expense_def upt_rec)
  from C7_consumer_rows [OF h1 h2, of "''2024-01-01 10:00:00''"] show ?thesis
    unfolding id z by (simp add: scenario_def mk_consumer_def)
qed

text \<open>
  C7 as stated fails from \<open>2\<^sup>5\<^sup>3\<close> on: with the greatest consumer id \<open>2\<^sup>5\<^sup>3\<close> both new rows
  get the id \<open>2\<^sup>5\<^sup>3\<close> again, not \<open>2\<^sup>5\<^sup>3 + 1\<close> and \<open>2\<^sup>5\<^sup>3 + 2\<close>.
\<close>

theorem C7_counterexample:
  "\<not> (map c_id (expense_consumers
                   (snd (createExpense ''2024-01-01 10:00:00'' new_expense top_id_sheets)))
        = map c_id (expense_consumers top_id_sheets) @
          [(if expense_consumers top_id_sheets = [] then 0
            else Max (c_id ` set (expense_consumers top_id_sheets))) + 1,
           (if expense_consumers top_id_sheets = [] then 0
            else Max (c_id ` set (expense_consumers top_id_sheets))) + 1 + 1])"
  by (simp add: consumer_rows_appended next_id_def js_plus_def to_double_def compute_bitlen
      top_id_sheets_def mk_consumer_def new_expense_def upt_rec Let_def)

subsection \<open>The creation request\<close>

lemma createExpense_lengths:
  "length (expenses (snd (createExpense now x s))) = length (expenses s) + 1 \<and>
   length (expense_consumers (snd (createExpense now x s)))
     = length (expense_consumers s) + length (x_consumers x)"
proof -
  have "foldl (add_consumer_row now a b cs) rows is = rows @ map (\<lambda>i. \<lparr>c_id = js_plus b (int i),
      c_expense_id = a, c_user_id = cs ! i, c_created_at = now\<rparr>) is" for a b cs rows "is"
    by (induction "is" arbitrary: rows) (simp_all add: add_consumer_row_def)
  then show ?thesis by (simp add: createExpense_def Let_def)
qed

lemma createExpense_result:
  "ce_id (fst (createExpense now x s)) = next_id (map e_id (expenses s)) \<and>
   ce_data (fst (createExpense now x s)) = x"
  by (simp add: createExpense_def Let_def)

lemma post_expenses_rejected:
  "rejected body \<Longrightarrow> post_expenses now body s = (Status400 ''Missing required fields'', s)"
  unfolding rejected_def post_expenses_def truthy_string_def truthy_int_def truthy_rat_def
  by (auto split: option.splits)

lemma post_expenses_accepted:
  assumes "\<not> rejected body"
  shows "\<exists>x. x_consumers x = the (p_consumers body) \<and> x_consumers x \<noteq> [] \<and>
           post_expenses now body s =
             (Status201 ''Expense created successfully'' (fst (createExpense now x s)),
              snd (createExpense now x s))"
proof -
  let ?x = "\<lparr>x_product_name = the (p_product_name body),
             x_quantity = (if truthy_int (p_quantity body) then the (p_quantity body) else 1),
             x_paid_by = the (p_paid_by body),
             x_amount = the (p_amount body),
             x_expense_date = the (p_expense_date body),
             x_note = (if truthy_string (p_note body) then the (p_note body) else []),
             x_consumers = the (p_consumers body)\<rparr>"
  from assms have ok: "truthy_string (p_product_name body)" "truthy_int (p_paid_by body)"
    "truthy_rat (p_amount body)" "truthy_string (p_expense_date body)"
    "\<exists>cs. p_consumers body = Some cs \<and> cs \<noteq> []"
    unfolding rejected_def truthy_string_def truthy_int_def truthy_rat_def
    by (auto split: option.splits)
  then have "post_expenses now body s =
      (Status201 ''Expense created successfully'' (fst (createExpense now ?x s)),
       snd (createExpense now ?x s))"
    unfolding post_expenses_def by (auto simp: case_prod_beta)
  moreover have "x_consumers ?x = the (p_consumers body)" by simp
  moreover have "x_consumers ?x \<noteq> []" using ok(5) by auto
  ultimately show ?thesis by blast
qed

text \<open>
  C5 (as amended). \<^verbatim>\<open>POST /expenses\<close> answers 400 exactly when one of
  \<^verbatim>\<open>product_name\<close>, \<^verbatim>\<open>paid_by\<close>, \<^verbatim>\<open>amount\<close>, \<^verbatim>\<open>expense_date\<close> is absent or falsy
  (an empty string, the number zero) or the consumer list is absent or empty; then no
  sheet changes. Otherwise it answers 201 with the created expense, having appended one
  expense row and one consumer row per consumer.
\<close>

theorem C5_post_validation:
  "(fst (post_expenses now body s) = Status400 ''Missing required fields'' \<longleftrightarrow>
      (p_product_name body = None \<or> p_product_name body = Some [] \<or>
       p_paid_by body = None \<or> p_paid_by body = Some 0 \<or>
       p_amount body = None \<or> p_amount body = Some 0 \<or>
       p_expense_date body = None \<or> p_expense_date body = Some [] \<or>
       p_consumers body = None \<or> p_consumers body = Some [])) \<and>
   (fst (post_expenses now body s) = Status400 ''Missing required fields'' \<longrightarrow>
      snd (post_expenses now body s) = s) \<and>
   (fst (post_expenses now body s) \<noteq> Status400 ''Missing required fields'' \<longrightarrow>
      (\<exists>expense s'. post_expenses now body s
                        = (Status201 ''Expense created successfully'' expense, s') \<and>
         ce_id expense = next_id (map e_id (expenses s)) \<and>
         p_consumers body = Some (x_consumers (ce_data expense)) \<and>
         x_consumers (ce_data expense) \<noteq> [] \<and>
         length (expenses s') = length (expenses s) + 1 \<and>
         length (expense_consumers s')
           = length (expense_consumers s) + length (x_consumers (ce_data expense))))"
proof (cases "rejected body")
  case True
  from post_expenses_rejected [OF True, of now s] True show ?thesis
    by (simp add: rejected_def)
next
  case False
  from post_expenses_accepted [OF False, of now s] obtain x where
    x: "x_consumers x = the (p_consumers body)" "x_consumers x \<noteq> []"
    and p: "post_expenses now body s =
             (Status201 ''Expense created successfully'' (fst (createExpense now x s)),
              snd (createExpense now x s))"
    by blast
  from False have "p_consumers body \<noteq> None" by (simp add: rejected_def)
  with x(1) have cs: "p_consumers body = Some (x_consumers x)" by auto
  have first: "fst (post_expenses now body s) \<noteq> Status400 ''Missing required fields''"
    unfolding p by simp
  have third: "\<exists>expense s'. post_expenses now body s
                        = (Status201 ''Expense created successfully'' expense, s') \<and>
         ce_id expense = next_id (map e_id (expenses s)) \<and>
         p_consumers body = Some (x_consumers (ce_data expense)) \<and>
         x_consumers (ce_data expense) \<noteq> [] \<and>
         length (expenses s') = length (expenses s) + 1 \<and>
         length (expense_consumers s')
           = length (expense_consumers s) + length (x_consumers (ce_data expense))"
    apply (rule exI [of _ "fst (createExpense now x s)"])
    apply (rule exI [of _ "snd (createExpense now x s)"])
    using p cs x(2) createExpense_lengths [of now x s] createExpense_result [of now x s]
    apply simp
    done
  from False first third show ?thesis
    unfolding rejected_def by blast
qed

theorem C5_post_validation_witness:
  "fst (post_expenses ''2024-01-01 10:00:00'' milk_body empty_sheets)
     \<noteq> Status400 ''Missing required fields'' \<and>
   (\<exists>expense s'. post_expenses ''2024-01-01 10:00:00'' milk_body empty_sheets
                        = (Status201 ''Expense created successfully'' expense, s') \<and>
         ce_id expense = next_id (map e_id (expenses empty_sheets)) \<and>
         p_consumers milk_body = Some (x_consumers (ce_data expense)) \<and>
         x_consumers (ce_data expense) \<noteq> [] \<and>
         length (expenses s') = length (expenses empty_sheets) + 1 \<and>
         length (expense_consumers s')
           = length (expense_consumers empty_sheets) + length (x_consumers (ce_data expense)))"
proof -
  have "\<not> (p_product_name milk_body = None \<or> p_product_name milk_body = Some [] \<or>
       p_paid_by milk_body = None \<or> p_paid_by milk_body = Some 0 \<or>
       p_amount milk_body = None \<or> p_amount milk_body = Some 0 \<or>
       p_expense_date milk_body = None \<or> p_expense_date milk_body = Some [] \<or>
       p_consumers milk_body = None \<or> p_consumers milk_body = Some [])"
    by (simp add: milk_body_def)
  with C5_post_validation [of "''2024-01-01 10:00:00''" milk_body empty_sheets]
  have h: "fst (post_expenses ''2024-01-01 10:00:00'' milk_body empty_sheets)
     \<noteq> Status400 ''Missing required fields''"
    by blast
  with C5_post_validation [of "''2024-01-01 10:00:00''" milk_body empty_sheets]
  show ?thesis by blast
qed

text \<open>
  C5 as stated fails for a body that has every field and the amount \<open>0\<close>: it is answered
  400 although nothing is missing.
\<close>

theorem C5_counterexample:
  "\<not> (fst (post_expenses ''2024-01-01 10:00:00'' zero_amount_body empty_sheets)
         = Status400 ''Missing required fields'' \<longleftrightarrow>
       (p_product_name zero_amount_body = None \<or> p_paid_by zero_amount_body = None \<or>
        p_amount zero_amount_body = None \<or> p_expense_date zero_amount_body = None \<or>
        p_consumers zero_amount_body = None \<or> p_consumers zero_amount_body = Some []))"
  by (simp add: post_expenses_def zero_amount_body_def truthy_string_def truthy_int_def
      truthy_rat_def)

end
